theory Spec2Isabelle
  imports Complex_Main "HOL-Library.Word" "HOL-Library.Log_Nat"
begin

section \<open>The HackRF sink of gr-osmosdr: ring buffer, sample conversion, streaming bridge\<close>

text \<open>
  A shallow embedding of \<^verbatim>\<open>lib/hackrf/hackrf_sink_c.cc\<close>. Bytes are \<open>8 word\<close>
  (\<^verbatim>\<open>int8_t\<close>; the hardware callback's \<^verbatim>\<open>unsigned char\<close> buffer holds the same
  bytes). A pointer is an array (a list) together with an offset into it. Behaviour that C
  leaves undefined and a wait that the calling thread cannot end by itself are values of
  the type \<open>fault\<close>.
\<close>

subsection \<open>Data\<close>

type_synonym int8_t = "8 word"

text \<open>
  The struct's declaration is in the header; its fields are those \<^verbatim>\<open>cb_init\<close> sets.
  \<open>cb_buffer\<close> is the allocated storage; the pointers \<^verbatim>\<open>buffer_end\<close>, \<^verbatim>\<open>head\<close> and
  \<^verbatim>\<open>tail\<close> are byte offsets from its start.
\<close>

record circular_buffer_t =
  cb_buffer :: "int8_t list"
  cb_buffer_end :: nat
  cb_capacity :: nat
  cb_count :: nat
  cb_sz :: nat
  cb_head :: nat
  cb_tail :: nat

text \<open>
  \<^verbatim>\<open>BUF_LEN\<close> and \<^verbatim>\<open>BUF_NUM\<close> are macros of the header, and \<^verbatim>\<open>USE_AVX\<close> and
  \<^verbatim>\<open>USE_SSE2\<close> are flags of the build: they are parameters here.
\<close>

datatype simd = USE_AVX | USE_SSE2 | NO_SIMD

record config =
  BUF_LEN :: nat
  BUF_NUM :: nat
  build :: simd

text \<open>
  Modelled from the spec: the Device Control Facade (\<^verbatim>\<open>hackrf_common\<close> and libhackrf are
  not part of the file). The sink needs of it whether a device is attached
  (\<^verbatim>\<open>_dev.get()\<close>), whether the device is streaming (\<^verbatim>\<open>hackrf_is_streaming\<close>), and
  the status codes of \<^verbatim>\<open>hackrf_start_tx\<close> and \<^verbatim>\<open>hackrf_stop_tx\<close>, which the
  operations below take as an argument.
\<close>

record hackrf_device =
  streaming :: bool

definition HACKRF_SUCCESS :: int where
  "HACKRF_SUCCESS = 0"

text \<open>What is written to \<^verbatim>\<open>std::cerr\<close>, piece by piece.\<close>

datatype cerr_item = Str string | Num int | Endl

text \<open>
  The members of \<^verbatim>\<open>hackrf_sink_c\<close> the streaming code uses, without the leading
  underscore; \<open>cerr\<close> is the output written so far and \<open>notified\<close> counts the calls of
  \<^verbatim>\<open>_buf_cond.notify_one()\<close>.
\<close>

record hackrf_sink_c =
  buf :: "int8_t list"
  buf_num :: nat
  buf_used :: nat
  stopping :: bool
  cbuf :: circular_buffer_t
  dev :: "hackrf_device option"
  cerr :: "cerr_item list"
  notified :: nat

text \<open>
  What a call can end in other than its result: the calling thread waits on the condition
  variable with the sink in the given state, which only another thread can end (the
  operations are modelled as run by one thread, without the others interleaved); an access
  outside an array; a float that is not a value of the integer type it is converted to.
\<close>

datatype fault = Blocked hackrf_sink_c | OutOfBounds | FloatToIntOverflow

subsection \<open>Memory primitives\<close>

text \<open>Storing a run of bytes into an array at an offset.\<close>

definition write_at :: "int8_t list \<Rightarrow> nat \<Rightarrow> int8_t list \<Rightarrow> int8_t list" where
  "write_at dst off bytes = take off dst @ bytes @ drop (off + length bytes) dst"

text \<open>
  \<^verbatim>\<open>memcpy(dst + doff, src, n)\<close> and \<^verbatim>\<open>memset(dst + doff, c, n)\<close>, with the array that
  \<open>dst\<close> points into as the result.
\<close>

definition memcpy :: "int8_t list \<Rightarrow> nat \<Rightarrow> int8_t list \<Rightarrow> nat \<Rightarrow> fault + int8_t list" where
  "memcpy dst doff src n =
     (if doff + n \<le> length dst \<and> n \<le> length src
      then Inr (write_at dst doff (take n src))
      else Inl OutOfBounds)"

definition memset :: "int8_t list \<Rightarrow> nat \<Rightarrow> int8_t \<Rightarrow> nat \<Rightarrow> fault + int8_t list" where
  "memset dst doff c n =
     (if doff + n \<le> length dst
      then Inr (write_at dst doff (replicate n c))
      else Inl OutOfBounds)"

subsection \<open>The circular buffer (\<^verbatim>\<open>cb_*\<close>)\<close>

text \<open>
  \<^verbatim>\<open>cb_init\<close>: \<open>mem\<close> is what \<^verbatim>\<open>malloc(capacity * sz)\<close> returned, \<open>None\<close> for a null
  pointer, otherwise \<open>capacity * sz\<close> bytes of indeterminate content.
\<close>

definition cb_init :: "circular_buffer_t \<Rightarrow> int8_t list option \<Rightarrow> nat \<Rightarrow> nat \<Rightarrow> bool \<times> circular_buffer_t" where
  "cb_init cb mem capacity sz =
     (case mem of
        None \<Rightarrow> (False, cb\<lparr>cb_buffer := []\<rparr>)
      | Some m \<Rightarrow>
          (True, \<lparr>cb_buffer = m, cb_buffer_end = capacity * sz, cb_capacity = capacity,
                  cb_count = 0, cb_sz = sz, cb_head = 0, cb_tail = 0\<rparr>))"

definition cb_has_room :: "circular_buffer_t \<Rightarrow> bool" where
  "cb_has_room cb = (if cb_count cb = cb_capacity cb then False else True)"

definition cb_is_empty :: "circular_buffer_t \<Rightarrow> bool" where
  "cb_is_empty cb = (cb_count cb = 0)"

definition cb_push_back :: "circular_buffer_t \<Rightarrow> int8_t list \<Rightarrow> fault + (bool \<times> circular_buffer_t)" where
  "cb_push_back cb item =
     (if cb_count cb = cb_capacity cb then Inr (False, cb)
      else
        (case memcpy (cb_buffer cb) (cb_head cb) item (cb_sz cb) of
           Inl f \<Rightarrow> Inl f
         | Inr b \<Rightarrow>
             (let head1 = cb_head cb + cb_sz cb;
                  head2 = (if head1 = cb_buffer_end cb then 0 else head1)
              in Inr (True, cb\<lparr>cb_buffer := b, cb_head := head2, cb_count := cb_count cb + 1\<rparr>))))"

text \<open>\<^verbatim>\<open>cb_pop_front\<close> returns the flag, the caller's buffer after the copy, and the ring.\<close>

definition cb_pop_front :: "circular_buffer_t \<Rightarrow> int8_t list \<Rightarrow> fault + (bool \<times> int8_t list \<times> circular_buffer_t)" where
  "cb_pop_front cb item =
     (if cb_count cb = 0 then Inr (False, item, cb)
      else
        (case memcpy item 0 (drop (cb_tail cb) (cb_buffer cb)) (cb_sz cb) of
           Inl f \<Rightarrow> Inl f
         | Inr item' \<Rightarrow>
             (let tail1 = cb_tail cb + cb_sz cb;
                  tail2 = (if tail1 = cb_buffer_end cb then 0 else tail1)
              in Inr (True, item', cb\<lparr>cb_tail := tail2, cb_count := cb_count cb - 1\<rparr>))))"

subsection \<open>Single-precision floats\<close>

text \<open>
  A \<^verbatim>\<open>float\<close> is an IEEE 754 binary32 value: \<open>Finite m e\<close> is the number \<open>m * 2 ^ e\<close>,
  \<open>Infinity s\<close> is the infinity of sign \<open>s\<close> (\<open>True\<close>: negative). The sign of a zero
  is not kept: no conversion below reads it. Arithmetic rounds to nearest, ties to even
  (the default rounding mode, which the file never changes), to 24 significant bits with
  the exponent of the last place no smaller than \<open>-149\<close>.
\<close>

datatype f32 = Finite int int | Infinity bool | NaN

text \<open>\<open>m / 2 ^ k\<close> rounded to the nearest integer, ties to even.\<close>

definition rne_shift :: "int \<Rightarrow> nat \<Rightarrow> int" where
  "rne_shift m k =
     (let q = m div 2 ^ k; r = m mod 2 ^ k
      in if 2 * r < 2 ^ k then q
         else if 2 ^ k < 2 * r then q + 1
         else if even q then q else q + 1)"

text \<open>
  The float nearest to \<open>m * 2 ^ e\<close>: \<open>qe\<close> is the exponent of the last place that
  24 significant bits leave, and a magnitude of \<open>2 ^ 128\<close> or more overflows.
\<close>

definition f32_round :: "int \<Rightarrow> int \<Rightarrow> f32" where
  "f32_round m e =
     (if m = 0 then Finite 0 0
      else
        (let qe = max (bitlen \<bar>m\<bar> + e - 24) (- 149)
         in if qe \<le> e
            then (if bitlen \<bar>m\<bar> + e \<le> 128 then Finite m e else Infinity (m < 0))
            else (let r = rne_shift m (nat (qe - e))
                  in if bitlen \<bar>r\<bar> + qe \<le> 128 then Finite r qe else Infinity (m < 0))))"

fun f32_mul :: "f32 \<Rightarrow> f32 \<Rightarrow> f32" where
  "f32_mul (Finite m1 e1) (Finite m2 e2) = f32_round (m1 * m2) (e1 + e2)"
| "f32_mul NaN y = NaN"
| "f32_mul x NaN = NaN"
| "f32_mul (Finite m e) (Infinity s) = (if m = 0 then NaN else Infinity ((m < 0) \<noteq> s))"
| "f32_mul (Infinity s) (Finite m e) = (if m = 0 then NaN else Infinity (s \<noteq> (m < 0)))"
| "f32_mul (Infinity s1) (Infinity s2) = Infinity (s1 \<noteq> s2)"

text \<open>The constant \<^verbatim>\<open>127\<close> (an \<^verbatim>\<open>int\<close> promoted to \<^verbatim>\<open>float\<close>) and \<^verbatim>\<open>127.0f\<close>.\<close>

definition f127 :: f32 where
  "f127 = Finite 127 0"

text \<open>
  The conversion of a \<^verbatim>\<open>float\<close> to \<^verbatim>\<open>int8_t\<close> in C++ drops the fractional part; the
  behaviour is undefined when the result is not a value of \<^verbatim>\<open>int8_t\<close>.
\<close>

definition f32_trunc :: "int \<Rightarrow> int \<Rightarrow> int" where
  "f32_trunc m e = (if 0 \<le> e then m * 2 ^ nat e else sgn m * (\<bar>m\<bar> div 2 ^ nat (- e)))"

definition float_to_int8 :: "f32 \<Rightarrow> fault + int8_t" where
  "float_to_int8 x =
     (case x of
        Finite m e \<Rightarrow>
          (let t = f32_trunc m e
           in if - 128 \<le> t \<and> t \<le> 127 then Inr (word_of_int t) else Inl FloatToIntOverflow)
      | Infinity s \<Rightarrow> Inl FloatToIntOverflow
      | NaN \<Rightarrow> Inl FloatToIntOverflow)"

subsection \<open>The SSE2 and AVX intrinsics the converters use\<close>

text \<open>
  A vector register is the list of its lanes, lane 0 first. \<^verbatim>\<open>cvtps2dq\<close> rounds as the
  rounding mode says (to nearest, ties to even) and gives \<^verbatim>\<open>0x80000000\<close> for a value
  that is not a 32-bit integer; the pack instructions saturate.
\<close>

definition loadu_ps :: "nat \<Rightarrow> f32 list \<Rightarrow> nat \<Rightarrow> fault + f32 list" where
  "loadu_ps lanes p off =
     (if off + lanes \<le> length p then Inr (take lanes (drop off p)) else Inl OutOfBounds)"

definition mul_ps :: "f32 list \<Rightarrow> f32 list \<Rightarrow> f32 list" where
  "mul_ps a b = map (\<lambda>(x, y). f32_mul x y) (zip a b)"

definition cvtps_lane :: "f32 \<Rightarrow> 32 word" where
  "cvtps_lane x =
     (case x of
        Finite m e \<Rightarrow>
          (let r = (if 0 \<le> e then m * 2 ^ nat e else rne_shift m (nat (- e)))
           in if - (2 ^ 31) \<le> r \<and> r < 2 ^ 31 then word_of_int r else 0x80000000)
      | Infinity s \<Rightarrow> 0x80000000
      | NaN \<Rightarrow> 0x80000000)"

definition cvtps_epi32 :: "f32 list \<Rightarrow> 32 word list" where
  "cvtps_epi32 v = map cvtps_lane v"

definition sat_epi32 :: "32 word \<Rightarrow> 16 word" where
  "sat_epi32 w =
     (if 32767 < sint w then 32767 else if sint w < - 32768 then - 32768 else word_of_int (sint w))"

definition sat_epi16 :: "16 word \<Rightarrow> int8_t" where
  "sat_epi16 w =
     (if 127 < sint w then 127 else if sint w < - 128 then - 128 else word_of_int (sint w))"

definition packs_epi32 :: "32 word list \<Rightarrow> 32 word list \<Rightarrow> 16 word list" where
  "packs_epi32 a b = map sat_epi32 (a @ b)"

definition packs_epi16 :: "16 word list \<Rightarrow> 16 word list \<Rightarrow> int8_t list" where
  "packs_epi16 a b = map sat_epi16 (a @ b)"

definition storeu_si128 :: "int8_t list \<Rightarrow> nat \<Rightarrow> int8_t list \<Rightarrow> fault + int8_t list" where
  "storeu_si128 p off v =
     (if off + 16 \<le> length p then Inr (write_at p off (take 16 v)) else Inl OutOfBounds)"

subsection \<open>The sample converters\<close>

text \<open>
  Each converter gets its pointers as an array and an offset; \<open>i\<close> is the loop counter.
  \<^verbatim>\<open>_mm256_castsi256_si128\<close> is the low half of a 256-bit register and
  \<^verbatim>\<open>_mm256_extractf128_si256(x, 1)\<close> its high half.
\<close>

function convert_avx_loop :: "f32 list \<Rightarrow> nat \<Rightarrow> int8_t list \<Rightarrow> nat \<Rightarrow> nat \<Rightarrow> nat \<Rightarrow> fault + int8_t list" where
  "convert_avx_loop inbuf ioff outbuf ooff count i =
     (if i < count then
        (let mulme = replicate 8 f127 in
         case loadu_ps 8 inbuf (ioff + (i * 16 + 0)) of Inl f \<Rightarrow> Inl f | Inr l3 \<Rightarrow>
         case loadu_ps 8 inbuf (ioff + (i * 16 + 8)) of Inl f \<Rightarrow> Inl f | Inr l4 \<Rightarrow>
           (let itmp3 = cvtps_epi32 (mul_ps l3 mulme);
                itmp4 = cvtps_epi32 (mul_ps l4 mulme);
                a1 = drop 4 itmp3;
                a0 = take 4 itmp3;
                a3 = drop 4 itmp4;
                a2 = take 4 itmp4;
                outshorts1 = packs_epi32 a0 a1;
                outshorts2 = packs_epi32 a2 a3;
                outbytes = packs_epi16 outshorts1 outshorts2
            in case storeu_si128 outbuf (ooff + i * 16) outbytes of
                 Inl f \<Rightarrow> Inl f
               | Inr outbuf' \<Rightarrow> convert_avx_loop inbuf ioff outbuf' ooff count (i + 1)))
      else Inr outbuf)"
  by pat_completeness auto
termination
  by (relation "measure (\<lambda>(inbuf, ioff, outbuf, ooff, count, i). count - i)") auto

declare convert_avx_loop.simps [simp del]

definition convert_avx :: "f32 list \<Rightarrow> nat \<Rightarrow> int8_t list \<Rightarrow> nat \<Rightarrow> nat \<Rightarrow> fault + int8_t list" where
  "convert_avx inbuf ioff outbuf ooff count = convert_avx_loop inbuf ioff outbuf ooff count 0"

function convert_sse2_loop :: "f32 list \<Rightarrow> nat \<Rightarrow> int8_t list \<Rightarrow> nat \<Rightarrow> nat \<Rightarrow> nat \<Rightarrow> fault + int8_t list" where
  "convert_sse2_loop inbuf ioff outbuf ooff count i =
     (if i < count then
        (let mulme = replicate 4 f127 in
         case loadu_ps 4 inbuf (ioff + (i * 16 + 0)) of Inl f \<Rightarrow> Inl f | Inr l1 \<Rightarrow>
         case loadu_ps 4 inbuf (ioff + (i * 16 + 4)) of Inl f \<Rightarrow> Inl f | Inr l2 \<Rightarrow>
         case loadu_ps 4 inbuf (ioff + (i * 16 + 8)) of Inl f \<Rightarrow> Inl f | Inr l3 \<Rightarrow>
         case loadu_ps 4 inbuf (ioff + (i * 16 + 12)) of Inl f \<Rightarrow> Inl f | Inr l4 \<Rightarrow>
           (let itmp1 = mul_ps l1 mulme;
                itmp2 = mul_ps l2 mulme;
                itmp3 = mul_ps l3 mulme;
                itmp4 = mul_ps l4 mulme;
                otmp1 = cvtps_epi32 itmp1;
                otmp2 = cvtps_epi32 itmp2;
                otmp3 = cvtps_epi32 itmp3;
                otmp4 = cvtps_epi32 itmp4;
                outshorts1 = packs_epi32 otmp1 otmp2;
                outshorts2 = packs_epi32 otmp3 otmp4;
                outbytes = packs_epi16 outshorts1 outshorts2
            in case storeu_si128 outbuf (ooff + i * 16) outbytes of
                 Inl f \<Rightarrow> Inl f
               | Inr outbuf' \<Rightarrow> convert_sse2_loop inbuf ioff outbuf' ooff count (i + 1)))
      else Inr outbuf)"
  by pat_completeness auto
termination
  by (relation "measure (\<lambda>(inbuf, ioff, outbuf, ooff, count, i). count - i)") auto

declare convert_sse2_loop.simps [simp del]

definition convert_sse2 :: "f32 list \<Rightarrow> nat \<Rightarrow> int8_t list \<Rightarrow> nat \<Rightarrow> nat \<Rightarrow> fault + int8_t list" where
  "convert_sse2 inbuf ioff outbuf ooff count = convert_sse2_loop inbuf ioff outbuf ooff count 0"

function convert_default_loop :: "f32 list \<Rightarrow> nat \<Rightarrow> int8_t list \<Rightarrow> nat \<Rightarrow> nat \<Rightarrow> nat \<Rightarrow> fault + int8_t list" where
  "convert_default_loop inbuf ioff outbuf ooff count i =
     (if i < count then
        (if ioff + i < length inbuf \<and> ooff + i < length outbuf then
           (case float_to_int8 (f32_mul (inbuf ! (ioff + i)) f127) of
              Inl f \<Rightarrow> Inl f
            | Inr b \<Rightarrow> convert_default_loop inbuf ioff (outbuf[ooff + i := b]) ooff count (i + 1))
         else Inl OutOfBounds)
      else Inr outbuf)"
  by pat_completeness auto
termination
  by (relation "measure (\<lambda>(inbuf, ioff, outbuf, ooff, count, i). count - i)") auto

declare convert_default_loop.simps [simp del]

definition convert_default :: "f32 list \<Rightarrow> nat \<Rightarrow> int8_t list \<Rightarrow> nat \<Rightarrow> nat \<Rightarrow> fault + int8_t list" where
  "convert_default inbuf ioff outbuf ooff count = convert_default_loop inbuf ioff outbuf ooff count 0"

text \<open>
  \<^verbatim>\<open>gr_complex\<close> is \<^verbatim>\<open>std::complex<float>\<close>: the real part, then the imaginary part.
  \<open>floats_of\<close> is the cast \<^verbatim>\<open>(float*)in\<close> of an array of them.
\<close>

type_synonym gr_complex = "f32 \<times> f32"

definition floats_of :: "gr_complex list \<Rightarrow> f32 list" where
  "floats_of xs = concat (map (\<lambda>(re, im). [re, im]) xs)"

subsection \<open>The constructor\<close>

text \<open>
  The constructor, as far as the buffers go. \<open>buffers\<close> is the value of the argument
  \<^verbatim>\<open>buffers\<close> (\<open>None\<close> when it is not given); \<open>mem_buf\<close> and \<open>mem_ring\<close> are what the
  two calls of \<^verbatim>\<open>malloc\<close> returned; \<^verbatim>\<open>_buf_used\<close> is not initialised before
  \<^verbatim>\<open>start()\<close>, so its first value \<open>used0\<close> is an argument too. A negative number of
  buffers is left out.
\<close>

definition new_hackrf_sink_c ::
  "config \<Rightarrow> nat option \<Rightarrow> hackrf_device option \<Rightarrow> int8_t list \<Rightarrow> int8_t list option \<Rightarrow> nat \<Rightarrow> hackrf_sink_c" where
  "new_hackrf_sink_c cfg buffers d mem_buf mem_ring used0 =
     (let n0 = (case buffers of None \<Rightarrow> 0 | Some b \<Rightarrow> b);
          n = (if 0 = n0 then BUF_NUM cfg else n0);
          out = (if BUF_NUM cfg \<noteq> n
                 then [Str ''Using '', Num (int n), Str '' buffers of size '',
                       Num (int (BUF_LEN cfg)), Str ''.'', Endl]
                 else [])
      in \<lparr>buf = mem_buf, buf_num = n, buf_used = used0, stopping = False,
          cbuf = snd (cb_init \<lparr>cb_buffer = [], cb_buffer_end = 0, cb_capacity = 0, cb_count = 0,
                               cb_sz = 0, cb_head = 0, cb_tail = 0\<rparr> mem_ring n (BUF_LEN cfg)),
          dev = d, cerr = out, notified = 0\<rparr>)"

subsection \<open>The hardware callback\<close>

text \<open>
  \<^verbatim>\<open>hackrf_tx_callback(buffer, length)\<close> returns its status, the transfer buffer and the
  sink.
\<close>

definition hackrf_tx_callback ::
  "hackrf_sink_c \<Rightarrow> int8_t list \<Rightarrow> nat \<Rightarrow> fault + (int \<times> int8_t list \<times> hackrf_sink_c)" where
  "hackrf_tx_callback s buffer len =
     (case cb_pop_front (cbuf s) buffer of
        Inl f \<Rightarrow> Inl f
      | Inr (popped, buffer1, cb) \<Rightarrow>
          if \<not> popped then
            (case memset buffer1 0 0 len of
               Inl f \<Rightarrow> Inl f
             | Inr buffer2 \<Rightarrow>
                 if stopping s
                 then Inr (- 1, buffer2, s\<lparr>cbuf := cb, notified := notified s + 1\<rparr>)
                 else Inr (0, buffer2, s\<lparr>cbuf := cb, cerr := cerr s @ [Str ''U'']\<rparr>))
          else Inr (0, buffer1, s\<lparr>cbuf := cb, notified := notified s + 1\<rparr>))"

subsection \<open>start and stop\<close>

text \<open>\<open>ret\<close> is the status \<^verbatim>\<open>hackrf_start_tx\<close> returns.\<close>

definition start :: "hackrf_sink_c \<Rightarrow> int \<Rightarrow> bool \<times> hackrf_sink_c" where
  "start s ret =
     (case dev s of
        None \<Rightarrow> (False, s)
      | Some d \<Rightarrow>
          (let s1 = s\<lparr>stopping := False, buf_used := 0\<rparr>
           in if ret \<noteq> HACKRF_SUCCESS
              then (False, s1\<lparr>cerr := cerr s1 @ [Str ''Failed to start TX streaming ('', Num ret,
                                                  Str '')'', Endl]\<rparr>)
              else (True, s1\<lparr>dev := Some (d\<lparr>streaming := True\<rparr>)\<rparr>)))"

text \<open>
  \<^verbatim>\<open>BUF_LEN - _buf_used\<close> is a subtraction of \<^verbatim>\<open>unsigned int\<close>: it wraps around.
\<close>

definition usub32 :: "nat \<Rightarrow> nat \<Rightarrow> nat" where
  "usub32 a b = (a + 2 ^ 32 - b mod 2 ^ 32) mod 2 ^ 32"

text \<open>
  \<^verbatim>\<open>while ( ! cb_has_room(&_cbuf) ) _buf_cond.wait( lock );\<close> A wait on the condition
  variable ends only when another thread changes what the loop tests, so a loop that has
  to wait is the fault \<open>Blocked\<close>, with the state the thread waits in.
\<close>

definition wait_for_room :: "hackrf_sink_c \<Rightarrow> fault + hackrf_sink_c" where
  "wait_for_room s = (if \<not> cb_has_room (cbuf s) then Inl (Blocked s) else Inr s)"

text \<open>The loop that adds the five buffers of silence; \<open>i\<close> is its counter.\<close>

function stop_silence_loop :: "hackrf_sink_c \<Rightarrow> nat \<Rightarrow> fault + hackrf_sink_c" where
  "stop_silence_loop s i =
     (if i < 5 then
        (case wait_for_room s of
           Inl f \<Rightarrow> Inl f
         | Inr s1 \<Rightarrow>
             (case cb_push_back (cbuf s1) (buf s1) of
                Inl f \<Rightarrow> Inl f
              | Inr (pushed, cb) \<Rightarrow> stop_silence_loop (s1\<lparr>cbuf := cb\<rparr>) (i + 1)))
      else Inr s)"
  by pat_completeness auto
termination
  by (relation "measure (\<lambda>(s, i). 5 - i)") auto

declare stop_silence_loop.simps [simp del]

text \<open>\<open>ret\<close> is the status \<^verbatim>\<open>hackrf_stop_tx\<close> returns.\<close>

definition stop :: "config \<Rightarrow> hackrf_sink_c \<Rightarrow> int \<Rightarrow> fault + (bool \<times> hackrf_sink_c)" where
  "stop cfg s ret =
     (case dev s of
        None \<Rightarrow> Inr (False, s)
      | Some d \<Rightarrow>
          (case wait_for_room s of Inl f \<Rightarrow> Inl f | Inr s0 \<Rightarrow>
           case memset (buf s0) (buf_used s0) 0 (usub32 (BUF_LEN cfg) (buf_used s0)) of
             Inl f \<Rightarrow> Inl f | Inr b1 \<Rightarrow>
           case cb_push_back (cbuf s0) b1 of Inl f \<Rightarrow> Inl f | Inr (pushed, cb1) \<Rightarrow>
           case memset b1 0 0 (BUF_LEN cfg) of Inl f \<Rightarrow> Inl f | Inr b2 \<Rightarrow>
           case stop_silence_loop (s0\<lparr>buf := b2, cbuf := cb1, buf_used := 0\<rparr>) 0 of
             Inl f \<Rightarrow> Inl f | Inr s2 \<Rightarrow>
             (let s3 = s2\<lparr>stopping := True\<rparr>
              in if streaming d then Inl (Blocked s3)
                 else if ret \<noteq> HACKRF_SUCCESS
                 then Inr (False, s3\<lparr>cerr := cerr s3 @ [Str ''Failed to stop TX streaming ('', Num ret,
                                                       Str '')'', Endl]\<rparr>)
                 else Inr (True, s3))))"

subsection \<open>work\<close>

text \<open>
  The conversion of \<open>count\<close> complex samples into the staging buffer at offset \<open>boff\<close>,
  as the build selects it: \<^verbatim>\<open>in + sse_rem*8\<close> is \<open>sse_rem * 8 * 2\<close> floats into the
  input.
\<close>

definition work_convert :: "config \<Rightarrow> f32 list \<Rightarrow> int8_t list \<Rightarrow> nat \<Rightarrow> nat \<Rightarrow> fault + int8_t list" where
  "work_convert cfg inbuf b boff count =
     (let sse_rem = count div 8;
          nosse_rem = count mod 8
      in case build cfg of
           USE_AVX \<Rightarrow>
             (case convert_avx inbuf 0 b boff sse_rem of
                Inl f \<Rightarrow> Inl f
              | Inr b1 \<Rightarrow> convert_default inbuf (sse_rem * 8 * 2) b1 (boff + sse_rem * 8 * 2) (nosse_rem * 2))
         | USE_SSE2 \<Rightarrow>
             (case convert_sse2 inbuf 0 b boff sse_rem of
                Inl f \<Rightarrow> Inl f
              | Inr b1 \<Rightarrow> convert_default inbuf (sse_rem * 8 * 2) b1 (boff + sse_rem * 8 * 2) (nosse_rem * 2))
         | NO_SIMD \<Rightarrow> convert_default inbuf 0 b boff (count * 2))"

text \<open>
  \<^verbatim>\<open>work\<close> after its wait for room: the conversion, which runs without the lock, and the
  push under the lock. The result is the number passed to \<^verbatim>\<open>consume_each\<close> (the C++
  function itself returns 0, the number of output items) and the sink.
\<close>

definition work_body ::
  "config \<Rightarrow> hackrf_sink_c \<Rightarrow> nat \<Rightarrow> gr_complex list \<Rightarrow> fault + (nat \<times> hackrf_sink_c)" where
  "work_body cfg s noutput_items input =
     (let prev_buf_used = buf_used s;
          remaining = usub32 (BUF_LEN cfg) (buf_used s) div 2;
          count = min noutput_items remaining;
          sse_rem = count div 8;
          nosse_rem = count mod 8
      in case work_convert cfg (floats_of input) (buf s) (buf_used s) count of
           Inl f \<Rightarrow> Inl f
         | Inr b \<Rightarrow>
             (let s1 = s\<lparr>buf := b, buf_used := buf_used s + (sse_rem * 8 + nosse_rem) * 2\<rparr>;
                  items_consumed = sse_rem * 8 + nosse_rem
              in if remaining \<le> noutput_items then
                   (case cb_push_back (cbuf s1) (buf s1) of
                      Inl f \<Rightarrow> Inl f
                    | Inr (pushed, cb) \<Rightarrow>
                        if \<not> pushed
                        then Inr (0, s1\<lparr>cbuf := cb, buf_used := prev_buf_used,
                                       cerr := cerr s1 @ [Str ''O'']\<rparr>)
                        else Inr (items_consumed, s1\<lparr>cbuf := cb, buf_used := 0\<rparr>))
                 else Inr (items_consumed, s1)))"

definition work ::
  "config \<Rightarrow> hackrf_sink_c \<Rightarrow> nat \<Rightarrow> gr_complex list \<Rightarrow> fault + (nat \<times> hackrf_sink_c)" where
  "work cfg s noutput_items input =
     (case wait_for_room s of
        Inl f \<Rightarrow> Inl f
      | Inr s0 \<Rightarrow> work_body cfg s0 noutput_items input)"

subsection \<open>Runs of calls\<close>

text \<open>
  A sequence of calls of \<^verbatim>\<open>work\<close>, each with its \<^verbatim>\<open>noutput_items\<close> and input; the
  result lists what each call consumed. \<open>drain\<close> is the transfer engine calling back
  \<open>k\<close> times, each time with a fresh buffer of \<open>len\<close> bytes; it lists the buffers it got.
\<close>

fun work_seq ::
  "config \<Rightarrow> hackrf_sink_c \<Rightarrow> (nat \<times> gr_complex list) list \<Rightarrow> fault + (nat list \<times> hackrf_sink_c)" where
  "work_seq cfg s [] = Inr ([], s)"
| "work_seq cfg s ((n, input) # calls) =
     (case work cfg s n input of
        Inl f \<Rightarrow> Inl f
      | Inr (c, s1) \<Rightarrow>
          (case work_seq cfg s1 calls of
             Inl f \<Rightarrow> Inl f
           | Inr (cs, s2) \<Rightarrow> Inr (c # cs, s2)))"

fun drain :: "hackrf_sink_c \<Rightarrow> nat \<Rightarrow> nat \<Rightarrow> fault + (int8_t list list \<times> hackrf_sink_c)" where
  "drain s len 0 = Inr ([], s)"
| "drain s len (Suc k) =
     (case hackrf_tx_callback s (replicate len 0) len of
        Inl f \<Rightarrow> Inl f
      | Inr (status, buffer, s1) \<Rightarrow>
          (case drain s1 len k of
             Inl f \<Rightarrow> Inl f
           | Inr (bs, s2) \<Rightarrow> Inr (buffer # bs, s2)))"

subsection \<open>Well-formed states and what the ring holds\<close>

text \<open>
  The ring as \<^verbatim>\<open>cb_init\<close> lays it out and the operations keep it: slots of \<open>cb_sz\<close>
  bytes, head and tail on slot boundaries, the head \<open>cb_count\<close> slots after the tail.
  \<open>cb_contents\<close> lists the occupied slots, oldest first.
\<close>

definition cb_wf :: "circular_buffer_t \<Rightarrow> bool" where
  "cb_wf cb =
     (0 < cb_sz cb \<and> 0 < cb_capacity cb \<and>
      length (cb_buffer cb) = cb_capacity cb * cb_sz cb \<and>
      cb_buffer_end cb = cb_capacity cb * cb_sz cb \<and>
      cb_count cb \<le> cb_capacity cb \<and>
      cb_head cb mod cb_sz cb = 0 \<and> cb_tail cb mod cb_sz cb = 0 \<and>
      cb_head cb < cb_capacity cb * cb_sz cb \<and> cb_tail cb < cb_capacity cb * cb_sz cb \<and>
      cb_head cb div cb_sz cb = (cb_tail cb div cb_sz cb + cb_count cb) mod cb_capacity cb)"

definition cb_slot :: "circular_buffer_t \<Rightarrow> nat \<Rightarrow> int8_t list" where
  "cb_slot cb i = take (cb_sz cb) (drop (i * cb_sz cb) (cb_buffer cb))"

definition cb_contents :: "circular_buffer_t \<Rightarrow> int8_t list list" where
  "cb_contents cb =
     map (\<lambda>j. cb_slot cb ((cb_tail cb div cb_sz cb + j) mod cb_capacity cb)) [0..<cb_count cb]"

text \<open>
  The configuration the code is written for (an even, positive \<^verbatim>\<open>BUF_LEN\<close> that is an
  \<^verbatim>\<open>unsigned int\<close>) and the states the constructor and \<^verbatim>\<open>start()\<close> set up: a staging
  buffer of \<^verbatim>\<open>BUF_LEN\<close> bytes filled to an even count below \<^verbatim>\<open>BUF_LEN\<close>, and a ring of
  slots of \<^verbatim>\<open>BUF_LEN\<close> bytes.
\<close>

definition cfg_ok :: "config \<Rightarrow> bool" where
  "cfg_ok cfg = (0 < BUF_LEN cfg \<and> even (BUF_LEN cfg) \<and> BUF_LEN cfg < 2 ^ 32)"

definition sink_inv :: "config \<Rightarrow> hackrf_sink_c \<Rightarrow> bool" where
  "sink_inv cfg s =
     (length (buf s) = BUF_LEN cfg \<and> buf_used s < BUF_LEN cfg \<and> even (buf_used s) \<and>
      cb_wf (cbuf s) \<and> cb_sz (cbuf s) = BUF_LEN cfg)"

subsection \<open>The specification's words for the converter\<close>

text \<open>
  The number a finite float stands for, the nominal range \<open>[-1, 1]\<close>, and rounding
  toward zero, as the specification of the converter names them.
\<close>

definition f32_val :: "f32 \<Rightarrow> rat" where
  "f32_val x =
     (case x of
        Finite m e \<Rightarrow> of_int m * 2 powi e
      | Infinity s \<Rightarrow> 0
      | NaN \<Rightarrow> 0)"

definition is_finite :: "f32 \<Rightarrow> bool" where
  "is_finite x = (case x of Finite m e \<Rightarrow> True | Infinity s \<Rightarrow> False | NaN \<Rightarrow> False)"

definition nominal :: "f32 \<Rightarrow> bool" where
  "nominal x = (is_finite x \<and> - 1 \<le> f32_val x \<and> f32_val x \<le> 1)"

definition nominal_sample :: "gr_complex \<Rightarrow> bool" where
  "nominal_sample c = (nominal (fst c) \<and> nominal (snd c))"

definition round_toward_zero :: "rat \<Rightarrow> int" where
  "round_toward_zero q = (if 0 \<le> q then \<lfloor>q\<rfloor> else \<lceil>q\<rceil>)"

text \<open>
  The byte one lane of the vector converters yields for a float; the byte the specification
  asks for a component, \<open>round_toward_zero (component * 127.0)\<close>, the product being the
  single-precision one; and the interleaved layout real, imaginary, real, imaginary, ...
  of a run of samples.
\<close>

definition vector_byte :: "f32 \<Rightarrow> int8_t" where
  "vector_byte x = sat_epi16 (sat_epi32 (cvtps_lane (f32_mul x f127)))"

definition scaled_byte :: "f32 \<Rightarrow> int8_t" where
  "scaled_byte x = word_of_int (round_toward_zero (f32_val (f32_mul x f127)))"

definition interleaved :: "gr_complex list \<Rightarrow> int8_t list" where
  "interleaved xs = concat (map (\<lambda>(re, im). [scaled_byte re, scaled_byte im]) xs)"

text \<open>
  The bytes one call of \<^verbatim>\<open>work\<close> stores for the samples \<open>xs\<close> it converts: in a
  vector build the leading multiple of eight samples goes through the vector lanes and
  the remainder through the scalar converter.
\<close>

definition converted :: "config \<Rightarrow> gr_complex list \<Rightarrow> int8_t list" where
  "converted cfg xs =
     (case build cfg of
        USE_AVX \<Rightarrow> map vector_byte (floats_of (take (length xs div 8 * 8) xs)) @
                   interleaved (drop (length xs div 8 * 8) xs)
      | USE_SSE2 \<Rightarrow> map vector_byte (floats_of (take (length xs div 8 * 8) xs)) @
                   interleaved (drop (length xs div 8 * 8) xs)
      | NO_SIMD \<Rightarrow> interleaved xs)"

subsection \<open>The specification's words for a run of calls\<close>

text \<open>
  The bytes a sequence of calls converted, in order (call \<open>i\<close> converted the first
  \<open>cs ! i\<close> samples of its input), and a byte stream cut into buffers of \<open>n\<close> bytes.
\<close>

definition converted_calls :: "config \<Rightarrow> (nat \<times> gr_complex list) list \<Rightarrow> nat list \<Rightarrow> int8_t list" where
  "converted_calls cfg calls cs =
     concat (map (\<lambda>((n, input), c). converted cfg (take c input)) (zip calls cs))"

function chunks :: "nat \<Rightarrow> int8_t list \<Rightarrow> int8_t list list" where
  "chunks n xs = (if n = 0 \<or> xs = [] then [] else take n xs # chunks n (drop n xs))"
  by pat_completeness auto
termination
  by (relation "measure (\<lambda>(n, xs). length xs)") auto

declare chunks.simps [simp del]

subsection \<open>A small sink\<close>

text \<open>
  A configuration with buffers of four bytes and the sink the constructor makes for it with
  a ring of two slots and a device that is not streaming; the theorems below are
  instantiated at it.
\<close>

definition ex_cfg :: config where
  "ex_cfg = \<lparr>BUF_LEN = 4, BUF_NUM = 2, build = NO_SIMD\<rparr>"

definition ex_sink :: hackrf_sink_c where
  "ex_sink = new_hackrf_sink_c ex_cfg None (Some \<lparr>streaming = False\<rparr>) [9, 9, 9, 9]
               (Some (replicate 8 9)) 0"

text \<open>The same sink with the staging buffer half filled and the ring full.\<close>

definition ex_full_sink :: hackrf_sink_c where
  "ex_full_sink = ex_sink\<lparr>buf_used := 2, cbuf := (cbuf ex_sink)\<lparr>cb_count := 2\<rparr>\<rparr>"

text \<open>
  A sink with a ring of seven slots and the staging buffer half filled, one whose device is
  streaming, and the small sink with the stopping flag set.
\<close>

definition ex_sink7 :: hackrf_sink_c where
  "ex_sink7 = new_hackrf_sink_c ex_cfg (Some 7) (Some \<lparr>streaming = False\<rparr>) [9, 9, 9, 9]
                (Some (replicate 28 9)) 2"

definition ex_streaming_sink7 :: hackrf_sink_c where
  "ex_streaming_sink7 = ex_sink7\<lparr>dev := Some \<lparr>streaming = True\<rparr>\<rparr>"

definition ex_stopping_sink :: hackrf_sink_c where
  "ex_stopping_sink = ex_sink\<lparr>stopping := True\<rparr>"

text \<open>
  The scenario of the specification: buffers of 1024 bytes, a sink constructed with
  \<^verbatim>\<open>buffers=4\<close> and an empty staging buffer, and 2048 complex samples (here all zero).
\<close>

definition ex_cfg1024 :: config where
  "ex_cfg1024 = \<lparr>BUF_LEN = 1024, BUF_NUM = 15, build = NO_SIMD\<rparr>"

definition ex_sink1024 :: hackrf_sink_c where
  "ex_sink1024 = new_hackrf_sink_c ex_cfg1024 (Some 4) (Some \<lparr>streaming = False\<rparr>)
                   (replicate 1024 0) (Some (replicate 4096 0)) 0"

definition ex_input2048 :: "gr_complex list" where
  "ex_input2048 = replicate 2048 (Finite 0 0, Finite 0 0)"

section \<open>Properties\<close>

subsection \<open>Rounding and the nominal range\<close>

lemma rne_shift_bound:
  assumes "\<bar>p\<bar> \<le> N * 2 ^ j"
  shows "\<bar>rne_shift p j\<bar> \<le> N"
proof -
  define d :: int where "d = 2 ^ j"
  define M where "M = - N"
  have d: "0 < d" by (simp add: d_def)
  have pN: "p \<le> N * d" and Mp: "M * d \<le> p"
    using assms by (simp_all add: d_def M_def abs_le_iff)
  have up: "p div d \<le> N"
  proof -
    have "p div d \<le> (N * d) div d" using pN d by (rule zdiv_mono1)
    then show ?thesis using d by simp
  qed
  have lo: "M \<le> p div d"
  proof -
    have "(M * d) div d \<le> p div d" using Mp d by (rule zdiv_mono1)
    then show ?thesis using d by simp
  qed
  have top: "p mod d = 0" if "p div d = N"
  proof -
    have "p = N * d + p mod d" using that by (metis div_mult_mod_eq)
    moreover have "0 \<le> p mod d" using d by simp
    ultimately show ?thesis using pN by linarith
  qed
  show ?thesis
  proof (cases "p div d = N")
    case True
    then have "p mod d = 0" by (rule top)
    then have "rne_shift p j = N"
      using True d by (simp add: rne_shift_def Let_def d_def [symmetric])
    then show ?thesis using lo True by (simp add: M_def abs_le_iff)
  next
    case False
    then have "p div d + 1 \<le> N" using up by linarith
    then show ?thesis
      using lo up unfolding rne_shift_def Let_def d_def [symmetric] M_def
      by (auto simp: abs_le_iff)
  qed
qed

lemma powi_neg: "e \<le> 0 \<Longrightarrow> (2::rat) powi e = 1 / 2 ^ nat (- e)"
  by (simp add: power_int_def power_one_over inverse_eq_divide)

lemma abs_val_le_iff:
  assumes "e \<le> 0"
  shows "(\<bar>of_int m * 2 powi e\<bar> \<le> (of_int N :: rat)) = (\<bar>m\<bar> \<le> N * 2 ^ nat (- e))"
proof -
  let ?k = "nat (- e)"
  have 1: "\<bar>of_int m * 2 powi e\<bar> = (of_int \<bar>m\<bar> :: rat) / 2 ^ ?k"
    using assms by (simp add: powi_neg abs_mult)
  have 2: "((of_int \<bar>m\<bar> :: rat) / 2 ^ ?k \<le> of_int N) = (of_int \<bar>m\<bar> \<le> (of_int (N * 2 ^ ?k) :: rat))"
    by (simp add: pos_divide_le_eq)
  show ?thesis unfolding 1 2 by (rule of_int_le_iff)
qed

lemma rtz_bound: "\<bar>q\<bar> \<le> of_int N \<Longrightarrow> \<bar>round_toward_zero q\<bar> \<le> N"
  unfolding round_toward_zero_def
  by (auto simp: abs_le_iff floor_le_iff le_ceiling_iff) linarith+

lemma trunc_eq: "f32_trunc m e = round_toward_zero (of_int m * 2 powi e)"
proof (cases "0 \<le> e")
  case True
  then have p: "(2::rat) powi e = 2 ^ nat e"
    by (simp add: power_int_nonneg_exp)
  have v: "(of_int m * 2 powi e :: rat) = of_int (m * 2 ^ nat e)"
    by (simp add: p)
  have "round_toward_zero (of_int (m * 2 ^ nat e)) = m * 2 ^ nat e"
    unfolding round_toward_zero_def by (simp only: floor_of_int ceiling_of_int if_cancel)
  then show ?thesis using True by (simp only: v f32_trunc_def if_True)
next
  case False
  define d :: int where "d = 2 ^ nat (- e)"
  have d: "0 < d" by (simp add: d_def)
  have v: "(of_int m * 2 powi e :: rat) = of_int m / of_int d"
    using False by (simp add: powi_neg d_def)
  show ?thesis
  proof (cases "0 \<le> m")
    case True
    then have "0 \<le> (of_int m / of_int d :: rat)" using d by simp
    then have "round_toward_zero (of_int m / of_int d) = m div d"
      by (simp add: round_toward_zero_def floor_divide_of_int_eq del: of_int_power)
    moreover have "sgn m * (\<bar>m\<bar> div d) = m div d" using True d
      by (cases "m = 0") (simp_all add: sgn_if)
    ultimately show ?thesis using False v by (simp add: f32_trunc_def d_def)
  next
    case m: False
    then have "\<not> 0 \<le> (of_int m / of_int d :: rat)" using d by (simp add: divide_less_0_iff not_le)
    then have "round_toward_zero (of_int m / of_int d) = \<lceil>(of_int m / of_int d :: rat)\<rceil>"
      by (simp add: round_toward_zero_def)
    also have "\<dots> = - \<lfloor>(of_int (- m) / of_int d :: rat)\<rfloor>"
      by (simp add: ceiling_def)
    also have "\<dots> = - ((- m) div d)"
      by (simp only: floor_divide_of_int_eq)
    finally have "round_toward_zero (of_int m / of_int d) = - ((- m) div d)" .
    moreover have "sgn m * (\<bar>m\<bar> div d) = - ((- m) div d)" using m by (simp add: sgn_if)
    ultimately show ?thesis using False v by (simp add: f32_trunc_def d_def)
  qed
qed

lemma sint8: "- 128 \<le> t \<Longrightarrow> t \<le> 127 \<Longrightarrow> sint (word_of_int t :: 8 word) = t"
  by (simp add: sint_sbintrunc' signed_take_bit_int_eq_self)

lemma bitlen_le7:
  assumes "m \<noteq> 0" "\<bar>of_int m * (2::rat) powi e\<bar> \<le> 127"
  shows "bitlen \<bar>m\<bar> + e \<le> 7"
proof (rule ccontr)
  assume "\<not> bitlen \<bar>m\<bar> + e \<le> 7"
  then have big: "7 \<le> bitlen \<bar>m\<bar> - 1 + e" by simp
  have pos: "0 < \<bar>m\<bar>" using assms(1) by simp
  have b1: "1 \<le> bitlen \<bar>m\<bar>" using pos bitlen_eq_zero_iff [of "\<bar>m\<bar>"] bitlen_nonneg [of "\<bar>m\<bar>"] by linarith
  have "2 ^ nat (bitlen \<bar>m\<bar> - 1) \<le> \<bar>m\<bar>" using bitlen_bounds [OF pos] by simp
  then have "(of_int (2 ^ nat (bitlen \<bar>m\<bar> - 1)) :: rat) \<le> of_int \<bar>m\<bar>" by (simp only: of_int_le_iff)
  then have lo: "(2::rat) powi (bitlen \<bar>m\<bar> - 1) \<le> of_int \<bar>m\<bar>"
    using b1 by (simp add: power_int_nonneg_exp)
  have "(2::rat) powi 7 \<le> 2 powi (bitlen \<bar>m\<bar> - 1 + e)"
    using big by (intro power_int_increasing) simp_all
  also have "\<dots> = 2 powi (bitlen \<bar>m\<bar> - 1) * 2 powi e"
    by (simp add: power_int_add)
  also have "\<dots> \<le> of_int \<bar>m\<bar> * 2 powi e"
    using lo by (intro mult_right_mono) simp_all
  also have "\<dots> = \<bar>of_int m * (2::rat) powi e\<bar>"
    by (simp add: abs_mult)
  finally show False using assms(2) by simp
qed

lemma f32_round_bounded:
  assumes "\<bar>of_int m * (2::rat) powi e\<bar> \<le> 127"
  shows "\<exists>m' e'. f32_round m e = Finite m' e' \<and> \<bar>of_int m' * (2::rat) powi e'\<bar> \<le> 127"
proof (cases "m = 0")
  case True
  then show ?thesis by (simp add: f32_round_def)
next
  case m: False
  define qe where "qe = max (bitlen \<bar>m\<bar> + e - 24) (- 149)"
  have l7: "bitlen \<bar>m\<bar> + e \<le> 7" using m assms by (rule bitlen_le7)
  show ?thesis
  proof (cases "qe \<le> e")
    case True
    then have "f32_round m e = Finite m e"
      using m l7 by (simp add: f32_round_def Let_def qe_def [symmetric])
    then show ?thesis using assms by blast
  next
    case False
    define r where "r = rne_shift m (nat (qe - e))"
    have qe0: "qe \<le> 0" using l7 by (simp add: qe_def)
    have e0: "e \<le> 0" using False qe0 by simp
    have "\<bar>m\<bar> \<le> 127 * 2 ^ nat (- e)"
      using assms abs_val_le_iff [OF e0, of m 127] by simp
    also have "nat (- e) = nat (- qe) + nat (qe - e)" using False qe0 by simp
    finally have "\<bar>m\<bar> \<le> (127 * 2 ^ nat (- qe)) * 2 ^ nat (qe - e)"
      by (simp add: power_add)
    then have rb: "\<bar>r\<bar> \<le> 127 * 2 ^ nat (- qe)"
      unfolding r_def by (rule rne_shift_bound)
    then have rv: "\<bar>of_int r * (2::rat) powi qe\<bar> \<le> 127"
      using abs_val_le_iff [OF qe0, of r 127] by simp
    have "bitlen \<bar>r\<bar> + qe \<le> 128"
    proof (cases "r = 0")
      case True
      then show ?thesis using qe0 by simp
    next
      case False
      then show ?thesis using bitlen_le7 [OF False rv] by simp
    qed
    then have "f32_round m e = Finite r qe"
      using m \<open>\<not> qe \<le> e\<close> by (simp add: f32_round_def Let_def qe_def [symmetric] r_def [symmetric])
    then show ?thesis using rv by blast
  qed
qed

lemma nominal_scaled:
  assumes "nominal x"
  shows "float_to_int8 (f32_mul x f127) = Inr (scaled_byte x) \<and>
         - 127 \<le> sint (scaled_byte x) \<and> sint (scaled_byte x) \<le> 127"
proof -
  obtain m e where x: "x = Finite m e"
    using assms by (cases x) (simp_all add: nominal_def is_finite_def)
  have "\<bar>f32_val x\<bar> \<le> 1" using assms by (simp add: nominal_def abs_le_iff)
  then have "\<bar>of_int (m * 127) * (2::rat) powi (e + 0)\<bar> \<le> 127"
    by (simp add: x f32_val_def abs_mult)
  then obtain m' e' where r: "f32_round (m * 127) (e + 0) = Finite m' e'"
      and b: "\<bar>of_int m' * (2::rat) powi e'\<bar> \<le> 127"
    using f32_round_bounded by blast
  have mul: "f32_mul x f127 = Finite m' e'" using r by (simp add: x f127_def)
  define t where "t = f32_trunc m' e'"
  have t: "t = round_toward_zero (f32_val (f32_mul x f127))"
    by (simp add: t_def mul f32_val_def trunc_eq)
  have tb: "\<bar>t\<bar> \<le> 127" unfolding t using b rtz_bound [of "f32_val (f32_mul x f127)" 127]
    by (simp add: mul f32_val_def)
  have sb: "scaled_byte x = word_of_int t" by (simp add: scaled_byte_def t)
  have "float_to_int8 (f32_mul x f127) = Inr (word_of_int t)"
    using tb by (simp add: mul float_to_int8_def Let_def t_def [symmetric] abs_le_iff)
  moreover have "sint (word_of_int t :: 8 word) = t" using tb by (intro sint8) (simp_all add: abs_le_iff)
  ultimately show ?thesis using tb by (simp add: sb abs_le_iff)
qed


subsection \<open>What the converter loops store\<close>

lemma length_write_at: "off + length bytes \<le> length dst \<Longrightarrow> length (write_at dst off bytes) = length dst"
  by (simp add: write_at_def)

lemma write_at_write_at:
  "off + length a + length b \<le> length dst \<Longrightarrow>
   write_at (write_at dst off a) (off + length a) b = write_at dst off (a @ b)"
  by (simp add: write_at_def add_ac)

lemma write_at_Nil: "off \<le> length dst \<Longrightarrow> write_at dst off [] = dst"
  by (simp add: write_at_def)

lemma list_update_write_at: "k < length xs \<Longrightarrow> xs[k := b] = write_at xs k [b]"
  by (simp add: write_at_def upd_conv_take_nth_drop)

lemma convert_default_loop_ok:
  assumes "ioff + count \<le> length inbuf" "ooff + count \<le> length outbuf"
      and "\<forall>j<count. nominal (inbuf ! (ioff + j))"
      and "i \<le> count"
  shows "convert_default_loop inbuf ioff outbuf ooff count i =
         Inr (write_at outbuf (ooff + i) (map scaled_byte (take (count - i) (drop (ioff + i) inbuf))))"
  using assms
proof (induction "count - i" arbitrary: i outbuf)
  case 0
  then show ?case by (simp add: convert_default_loop.simps write_at_Nil)
next
  case (Suc n)
  then have i: "i < count" by simp
  define b where "b = scaled_byte (inbuf ! (ioff + i))"
  have cast: "float_to_int8 (f32_mul (inbuf ! (ioff + i)) f127) = Inr b"
    using Suc.prems(3) i nominal_scaled by (simp add: b_def)
  have len: "ooff + count \<le> length (outbuf[ooff + i := b])" using Suc.prems(2) by simp
  have n: "n = count - (i + 1)" using Suc.hyps(2) by simp
  have IH: "convert_default_loop inbuf ioff (outbuf[ooff + i := b]) ooff count (i + 1) =
            Inr (write_at (outbuf[ooff + i := b]) (ooff + (i + 1))
                   (map scaled_byte (take (count - (i + 1)) (drop (ioff + (i + 1)) inbuf))))"
    using Suc.hyps(1) [OF n Suc.prems(1) len Suc.prems(3)] i by simp
  have split: "take (count - i) (drop (ioff + i) inbuf) =
               inbuf ! (ioff + i) # take (count - (i + 1)) (drop (ioff + (i + 1)) inbuf)"
  proof -
    have "ioff + i < length inbuf" using Suc.prems(1) i by simp
    then have "drop (ioff + i) inbuf = inbuf ! (ioff + i) # drop (Suc (ioff + i)) inbuf"
      by (simp add: Cons_nth_drop_Suc)
    moreover have "count - i = Suc (count - (i + 1))" using i by simp
    ultimately show ?thesis by simp
  qed
  have k: "ooff + i < length outbuf" using Suc.prems(2) i by simp
  have "write_at (outbuf[ooff + i := b]) (ooff + (i + 1))
          (map scaled_byte (take (count - (i + 1)) (drop (ioff + (i + 1)) inbuf))) =
        write_at outbuf (ooff + i) (map scaled_byte (take (count - i) (drop (ioff + i) inbuf)))"
  proof -
    have "length (take (count - (i + 1)) (drop (ioff + (i + 1)) inbuf)) = count - (i + 1)"
      using Suc.prems(1) i by simp
    then have "ooff + i + length [b] + length (map scaled_byte (take (count - (i + 1)) (drop (ioff + (i + 1)) inbuf))) \<le> length outbuf"
      using Suc.prems(2) i by simp
    from write_at_write_at [OF this] show ?thesis
      by (simp add: list_update_write_at [OF k] split b_def)
  qed
  then show ?case
    using i k Suc.prems(1) cast IH
    by (subst convert_default_loop.simps) simp
qed

lemma convert_default_ok:
  assumes "ioff + count \<le> length inbuf" "ooff + count \<le> length outbuf"
      and "\<forall>j<count. nominal (inbuf ! (ioff + j))"
  shows "convert_default inbuf ioff outbuf ooff count =
         Inr (write_at outbuf ooff (map scaled_byte (take count (drop ioff inbuf))))"
  using convert_default_loop_ok [OF assms, of 0] by (simp add: convert_default_def)

lemma mul_ps_replicate:
  "length l = n \<Longrightarrow> mul_ps l (replicate n c) = map (\<lambda>x. f32_mul x c) l"
  by (simp add: mul_ps_def list_eq_iff_nth_eq)

lemma lanes_avx:
  assumes "length l3 = 8" "length l4 = 8"
  shows "packs_epi16
           (packs_epi32 (take 4 (cvtps_epi32 (mul_ps l3 (replicate 8 f127))))
                        (drop 4 (cvtps_epi32 (mul_ps l3 (replicate 8 f127)))))
           (packs_epi32 (take 4 (cvtps_epi32 (mul_ps l4 (replicate 8 f127))))
                        (drop 4 (cvtps_epi32 (mul_ps l4 (replicate 8 f127))))) =
         map vector_byte (l3 @ l4)"
  using assms
  by (simp add: packs_epi16_def packs_epi32_def cvtps_epi32_def mul_ps_replicate
      vector_byte_def comp_def)

lemma lanes_sse2:
  assumes "length l1 = 4" "length l2 = 4" "length l3 = 4" "length l4 = 4"
  shows "packs_epi16
           (packs_epi32 (cvtps_epi32 (mul_ps l1 (replicate 4 f127)))
                        (cvtps_epi32 (mul_ps l2 (replicate 4 f127))))
           (packs_epi32 (cvtps_epi32 (mul_ps l3 (replicate 4 f127)))
                        (cvtps_epi32 (mul_ps l4 (replicate 4 f127)))) =
         map vector_byte (l1 @ l2 @ l3 @ l4)"
  using assms
  by (simp add: packs_epi16_def packs_epi32_def cvtps_epi32_def mul_ps_replicate
      vector_byte_def comp_def)

lemma take16_split2:
  "take 8 (drop a xs) @ take 8 (drop (a + 8) xs) = take 16 (drop a xs)"
  using take_add [of 8 8 "drop a xs"] by (simp add: add.commute)

lemma take16_split4:
  "take 4 (drop a xs) @ take 4 (drop (a + 4) xs) @ take 4 (drop (a + 8) xs) @ take 4 (drop (a + 12) xs)
   = take 16 (drop a xs)"
proof -
  have "take 16 (drop a xs) = take 4 (drop a xs) @ take 12 (drop (a + 4) xs)"
    using take_add [of 4 12 "drop a xs"] by (simp add: add.commute)
  also have "take 12 (drop (a + 4) xs) = take 4 (drop (a + 4) xs) @ take 8 (drop (a + 8) xs)"
    using take_add [of 4 8 "drop (a + 4) xs"] by (simp add: add.commute)
  also have "take 8 (drop (a + 8) xs) = take 4 (drop (a + 8) xs) @ take 4 (drop (a + 12) xs)"
    using take_add [of 4 4 "drop (a + 8) xs"] by (simp add: add.commute)
  finally show ?thesis by simp
qed

lemma take_drop_step16:
  assumes "i < count"
  shows "take (16 * (count - i)) (drop (a + 16 * i) xs) =
         take 16 (drop (a + 16 * i) xs) @ take (16 * (count - (i + 1))) (drop (a + 16 * (i + 1)) xs)"
proof -
  have "16 * (count - i) = 16 + 16 * (count - (i + 1))" using assms by simp
  then show ?thesis
    using take_add [of 16 "16 * (count - (i + 1))" "drop (a + 16 * i) xs"]
    by (simp add: add_ac)
qed

lemma convert_avx_loop_ok:
  assumes "ioff + 16 * count \<le> length inbuf" "ooff + 16 * count \<le> length outbuf"
      and "i \<le> count"
  shows "convert_avx_loop inbuf ioff outbuf ooff count i =
         Inr (write_at outbuf (ooff + 16 * i)
                (map vector_byte (take (16 * (count - i)) (drop (ioff + 16 * i) inbuf))))"
  using assms
proof (induction "count - i" arbitrary: i outbuf)
  case 0
  then show ?case by (simp add: convert_avx_loop.simps write_at_Nil)
next
  case (Suc n)
  then have i: "i < count" by simp
  define bytes where "bytes = map vector_byte (take 16 (drop (ioff + 16 * i) inbuf))"
  define rest where "rest = map vector_byte (take (16 * (count - (i + 1))) (drop (ioff + 16 * (i + 1)) inbuf))"
  define outbuf' where "outbuf' = write_at outbuf (ooff + 16 * i) bytes"
  have inb: "ioff + 16 * i + 16 \<le> length inbuf" using Suc.prems(1) i by simp
  have outb: "ooff + 16 * i + 16 \<le> length outbuf" using Suc.prems(2) i by simp
  have lb: "length bytes = 16" using inb by (simp add: bytes_def)
  have lr: "length rest = 16 * (count - (i + 1))" using Suc.prems(1) i by (simp add: rest_def)
  have l1: "loadu_ps 8 inbuf (ioff + (i * 16 + 0)) = Inr (take 8 (drop (ioff + 16 * i) inbuf))"
    using inb by (simp add: loadu_ps_def mult.commute)
  have l2: "loadu_ps 8 inbuf (ioff + (i * 16 + 8)) = Inr (take 8 (drop (ioff + 16 * i + 8) inbuf))"
    using inb by (simp add: loadu_ps_def mult.commute add_ac)
  have lanes: "packs_epi16
           (packs_epi32 (take 4 (cvtps_epi32 (mul_ps (take 8 (drop (ioff + 16 * i) inbuf)) (replicate 8 f127))))
                        (drop 4 (cvtps_epi32 (mul_ps (take 8 (drop (ioff + 16 * i) inbuf)) (replicate 8 f127)))))
           (packs_epi32 (take 4 (cvtps_epi32 (mul_ps (take 8 (drop (ioff + 16 * i + 8) inbuf)) (replicate 8 f127))))
                        (drop 4 (cvtps_epi32 (mul_ps (take 8 (drop (ioff + 16 * i + 8) inbuf)) (replicate 8 f127)))))
         = bytes"
    unfolding bytes_def take16_split2 [symmetric]
    using inb by (intro lanes_avx) simp_all
  have st: "storeu_si128 outbuf (ooff + i * 16) bytes = Inr outbuf'"
    using outb lb by (simp add: storeu_si128_def outbuf'_def mult.commute)
  have len: "ooff + 16 * count \<le> length outbuf'"
    using Suc.prems(2) outb lb by (simp add: outbuf'_def length_write_at)
  have n: "n = count - (i + 1)" using Suc.hyps(2) by simp
  have IH: "convert_avx_loop inbuf ioff outbuf' ooff count (i + 1) =
            Inr (write_at outbuf' (ooff + 16 * (i + 1)) rest)"
    using Suc.hyps(1) [OF n Suc.prems(1) len] i by (simp add: rest_def)
  have "write_at outbuf' (ooff + 16 * (i + 1)) rest = write_at outbuf (ooff + 16 * i) (bytes @ rest)"
  proof -
    have "ooff + 16 * i + length bytes + length rest \<le> length outbuf"
      using Suc.prems(2) i lb lr by simp
    from write_at_write_at [OF this] show ?thesis by (simp add: outbuf'_def lb add_ac)
  qed
  also have "bytes @ rest = map vector_byte (take (16 * (count - i)) (drop (ioff + 16 * i) inbuf))"
    by (simp add: bytes_def rest_def take_drop_step16 [OF i])
  finally show ?case
    using i l1 l2 lanes st IH
    by (subst convert_avx_loop.simps) (simp add: Let_def)
qed


lemma convert_sse2_loop_ok:
  assumes "ioff + 16 * count \<le> length inbuf" "ooff + 16 * count \<le> length outbuf"
      and "i \<le> count"
  shows "convert_sse2_loop inbuf ioff outbuf ooff count i =
         Inr (write_at outbuf (ooff + 16 * i)
                (map vector_byte (take (16 * (count - i)) (drop (ioff + 16 * i) inbuf))))"
  using assms
proof (induction "count - i" arbitrary: i outbuf)
  case 0
  then show ?case by (simp add: convert_sse2_loop.simps write_at_Nil)
next
  case (Suc n)
  then have i: "i < count" by simp
  define bytes where "bytes = map vector_byte (take 16 (drop (ioff + 16 * i) inbuf))"
  define rest where "rest = map vector_byte (take (16 * (count - (i + 1))) (drop (ioff + 16 * (i + 1)) inbuf))"
  define outbuf' where "outbuf' = write_at outbuf (ooff + 16 * i) bytes"
  have inb: "ioff + 16 * i + 16 \<le> length inbuf" using Suc.prems(1) i by simp
  have outb: "ooff + 16 * i + 16 \<le> length outbuf" using Suc.prems(2) i by simp
  have lb: "length bytes = 16" using inb by (simp add: bytes_def)
  have lr: "length rest = 16 * (count - (i + 1))" using Suc.prems(1) i by (simp add: rest_def)
  have l1: "loadu_ps 4 inbuf (ioff + (i * 16 + 0)) = Inr (take 4 (drop (ioff + 16 * i) inbuf))"
    using inb by (simp add: loadu_ps_def mult.commute)
  have l2: "loadu_ps 4 inbuf (ioff + (i * 16 + 4)) = Inr (take 4 (drop (ioff + 16 * i + 4) inbuf))"
    using inb by (simp add: loadu_ps_def mult.commute add_ac)
  have l3: "loadu_ps 4 inbuf (ioff + (i * 16 + 8)) = Inr (take 4 (drop (ioff + 16 * i + 8) inbuf))"
    using inb by (simp add: loadu_ps_def mult.commute add_ac)
  have l4: "loadu_ps 4 inbuf (ioff + (i * 16 + 12)) = Inr (take 4 (drop (ioff + 16 * i + 12) inbuf))"
    using inb by (simp add: loadu_ps_def mult.commute add_ac)
  have lanes: "packs_epi16
           (packs_epi32 (cvtps_epi32 (mul_ps (take 4 (drop (ioff + 16 * i) inbuf)) (replicate 4 f127)))
                        (cvtps_epi32 (mul_ps (take 4 (drop (ioff + 16 * i + 4) inbuf)) (replicate 4 f127))))
           (packs_epi32 (cvtps_epi32 (mul_ps (take 4 (drop (ioff + 16 * i + 8) inbuf)) (replicate 4 f127)))
                        (cvtps_epi32 (mul_ps (take 4 (drop (ioff + 16 * i + 12) inbuf)) (replicate 4 f127))))
         = bytes"
    unfolding bytes_def take16_split4 [symmetric]
    using inb by (intro lanes_sse2) simp_all
  have st: "storeu_si128 outbuf (ooff + i * 16) bytes = Inr outbuf'"
    using outb lb by (simp add: storeu_si128_def outbuf'_def mult.commute)
  have len: "ooff + 16 * count \<le> length outbuf'"
    using Suc.prems(2) outb lb by (simp add: outbuf'_def length_write_at)
  have n: "n = count - (i + 1)" using Suc.hyps(2) by simp
  have IH: "convert_sse2_loop inbuf ioff outbuf' ooff count (i + 1) =
            Inr (write_at outbuf' (ooff + 16 * (i + 1)) rest)"
    using Suc.hyps(1) [OF n Suc.prems(1) len] i by (simp add: rest_def)
  have "write_at outbuf' (ooff + 16 * (i + 1)) rest = write_at outbuf (ooff + 16 * i) (bytes @ rest)"
  proof -
    have "ooff + 16 * i + length bytes + length rest \<le> length outbuf"
      using Suc.prems(2) i lb lr by simp
    from write_at_write_at [OF this] show ?thesis by (simp add: outbuf'_def lb add_ac)
  qed
  also have "bytes @ rest = map vector_byte (take (16 * (count - i)) (drop (ioff + 16 * i) inbuf))"
    by (simp add: bytes_def rest_def take_drop_step16 [OF i])
  finally show ?case
    using i l1 l2 l3 l4 lanes st IH
    by (subst convert_sse2_loop.simps) (simp add: Let_def)
qed


lemma convert_avx_ok:
  assumes "ioff + 16 * count \<le> length inbuf" "ooff + 16 * count \<le> length outbuf"
  shows "convert_avx inbuf ioff outbuf ooff count =
         Inr (write_at outbuf ooff (map vector_byte (take (16 * count) (drop ioff inbuf))))"
  using convert_avx_loop_ok [OF assms, of 0] by (simp add: convert_avx_def)

lemma convert_sse2_ok:
  assumes "ioff + 16 * count \<le> length inbuf" "ooff + 16 * count \<le> length outbuf"
  shows "convert_sse2 inbuf ioff outbuf ooff count =
         Inr (write_at outbuf ooff (map vector_byte (take (16 * count) (drop ioff inbuf))))"
  using convert_sse2_loop_ok [OF assms, of 0] by (simp add: convert_sse2_def)

lemma floats_of_Cons: "floats_of (x # xs) = fst x # snd x # floats_of xs"
  by (simp add: floats_of_def split: prod.split)

lemma floats_of_Nil: "floats_of [] = []"
  by (simp add: floats_of_def)

lemma length_floats_of: "length (floats_of xs) = 2 * length xs"
  by (induction xs) (simp_all add: floats_of_Cons floats_of_Nil)

lemma take_floats_of: "take (2 * k) (floats_of xs) = floats_of (take k xs)"
proof (induction xs arbitrary: k)
  case Nil
  then show ?case by (simp add: floats_of_Nil)
next
  case (Cons x xs)
  then show ?case by (cases k) (simp_all add: floats_of_Cons floats_of_Nil)
qed

lemma drop_floats_of: "drop (2 * k) (floats_of xs) = floats_of (drop k xs)"
proof (induction xs arbitrary: k)
  case Nil
  then show ?case by (simp add: floats_of_Nil)
next
  case (Cons x xs)
  then show ?case by (cases k) (simp_all add: floats_of_Cons floats_of_Nil)
qed

lemma set_floats_of: "set (floats_of xs) = fst ` set xs \<union> snd ` set xs"
  by (induction xs) (auto simp: floats_of_Cons floats_of_Nil)

lemma interleaved_floats: "interleaved xs = map scaled_byte (floats_of xs)"
  by (induction xs) (simp_all add: interleaved_def floats_of_Cons floats_of_Nil split: prod.split)

lemma length_interleaved: "length (interleaved xs) = 2 * length xs"
  by (simp add: interleaved_floats length_floats_of)


subsection \<open>The scalar converter meets the contract\<close>

text \<open>
  C2. For \<open>count\<close> complex samples whose components are in the nominal range \<open>[-1, 1]\<close>,
  \<^verbatim>\<open>convert_default\<close>, called as \<^verbatim>\<open>work\<close> calls it (on the samples seen as floats, for
  \<open>2 * count\<close> floats), returns, and writes exactly \<open>2 * count\<close> bytes: for each sample
  in turn the byte of its real part, then the byte of its imaginary part, each
  \<open>round_toward_zero (component * 127.0)\<close> (the single-precision product), a value within
  \<open>[-127, 127]\<close>. The rest of the output array is untouched.
\<close>

theorem convert_default_contract:
  assumes "count \<le> length samples" and "2 * count \<le> length outbuf"
      and "\<forall>s \<in> set (take count samples). nominal_sample s"
  shows "convert_default (floats_of samples) 0 outbuf 0 (2 * count) =
           Inr (interleaved (take count samples) @ drop (2 * count) outbuf) \<and>
         length (interleaved (take count samples)) = 2 * count \<and>
         (\<forall>b \<in> set (interleaved (take count samples)). - 127 \<le> sint b \<and> sint b \<le> 127)"
proof -
  let ?fl = "floats_of (take count samples)"
  have nom: "\<forall>x \<in> set ?fl. nominal x"
    using assms(3) by (auto simp: set_floats_of nominal_sample_def)
  have pre: "take (2 * count) (floats_of samples) = ?fl"
    by (rule take_floats_of)
  have len: "length ?fl = 2 * count"
    using assms(1) by (simp add: length_floats_of)
  have a: "\<forall>j<2 * count. nominal (floats_of samples ! (0 + j))"
  proof (intro allI impI)
    fix j assume j: "j < 2 * count"
    then have "floats_of samples ! j = ?fl ! j" by (simp add: pre [symmetric])
    moreover have "?fl ! j \<in> set ?fl" using j len by simp
    ultimately show "nominal (floats_of samples ! (0 + j))" using nom by simp
  qed
  have b: "0 + 2 * count \<le> length (floats_of samples)"
    using assms(1) by (simp add: length_floats_of)
  have c: "0 + 2 * count \<le> length outbuf" using assms(2) by simp
  have "convert_default (floats_of samples) 0 outbuf 0 (2 * count) =
      Inr (write_at outbuf 0 (map scaled_byte (take (2 * count) (drop 0 (floats_of samples)))))"
    using b c a by (rule convert_default_ok)
  then have 1: "convert_default (floats_of samples) 0 outbuf 0 (2 * count) =
      Inr (interleaved (take count samples) @ drop (2 * count) outbuf)"
    by (simp add: write_at_def pre interleaved_floats len)
  have 2: "length (interleaved (take count samples)) = 2 * count"
    using assms(1) by (simp add: length_interleaved)
  have 3: "\<forall>b \<in> set (interleaved (take count samples)). - 127 \<le> sint b \<and> sint b \<le> 127"
    using nom nominal_scaled by (auto simp: interleaved_floats)
  from 1 2 3 show ?thesis by blast
qed

theorem convert_default_contract_witness:
  "convert_default (floats_of [(Finite 1 (- 1), Finite (- 3) (- 2)), (Finite 1 0, Finite 0 0)]) 0
     [9, 9, 9] 0 (2 * 1) = Inr [63, - 95, 9]"
proof -
  have f: "f32_mul (Finite 1 (- 1)) f127 = Finite 127 (- 1)"
          "f32_mul (Finite (- 3) (- 2)) f127 = Finite (- 381) (- 2)"
    by (simp_all add: f127_def f32_round_def compute_bitlen)
  have n: "\<forall>s \<in> set (take 1 [(Finite 1 (- 1), Finite (- 3) (- 2)), (Finite 1 0, Finite 0 0)]).
             nominal_sample s"
    by (simp add: nominal_sample_def nominal_def is_finite_def f32_val_def power_int_minus)
  have "scaled_byte (Finite 1 (- 1)) = word_of_int (f32_trunc 127 (- 1))"
       "scaled_byte (Finite (- 3) (- 2)) = word_of_int (f32_trunc (- 381) (- 2))"
    by (simp_all only: scaled_byte_def f f32_val_def f32.case trunc_eq [symmetric])
  then have "interleaved (take 1 [(Finite 1 (- 1), Finite (- 3) (- 2)), (Finite 1 0, Finite 0 0)]) =
        [63, - 95]"
    by (simp add: interleaved_def f32_trunc_def)
  then show ?thesis
    using convert_default_contract
      [of 1 "[(Finite 1 (- 1), Finite (- 3) (- 2)), (Finite 1 0, Finite 0 0)]" "[9, 9, 9]", OF _ _ n]
    by simp
qed

text \<open>
  The product is rounded to a float before the fraction is dropped, and the rounding can
  reach an integer that the exact product stays below: for the float \<open>2113665 * 2 ^ -28\<close>,
  just below \<open>1 / 127\<close>, the exact product is \<open>1 - 2 ^ -28\<close>, the float product is
  \<open>1\<close>, and the byte is 1.
\<close>

lemma product_rounds_before_truncation:
  "nominal (Finite 2113665 (- 28)) \<and>
   f32_mul (Finite 2113665 (- 28)) f127 = Finite 16777216 (- 24) \<and>
   scaled_byte (Finite 2113665 (- 28)) = 1 \<and>
   float_to_int8 (f32_mul (Finite 2113665 (- 28)) f127) = Inr 1 \<and>
   round_toward_zero (f32_val (Finite 2113665 (- 28)) * 127) = 0"
proof -
  have n: "nominal (Finite 2113665 (- 28))"
    by (simp add: nominal_def is_finite_def f32_val_def power_int_minus)
  have m: "f32_mul (Finite 2113665 (- 28)) f127 = Finite 16777216 (- 24)"
    by (simp add: f127_def f32_round_def compute_bitlen rne_shift_def)
  have "scaled_byte (Finite 2113665 (- 28)) = word_of_int (f32_trunc 16777216 (- 24))"
    by (simp only: scaled_byte_def m f32_val_def f32.case trunc_eq [symmetric])
  then have b: "scaled_byte (Finite 2113665 (- 28)) = 1" by (simp add: f32_trunc_def)
  have c: "float_to_int8 (f32_mul (Finite 2113665 (- 28)) f127) = Inr 1"
    using nominal_scaled [OF n] by (simp add: b)
  have "f32_val (Finite 2113665 (- 28)) * 127 = 268435455 / 268435456"
    by (simp add: f32_val_def power_int_minus)
  then have "round_toward_zero (f32_val (Finite 2113665 (- 28)) * 127) = 0"
    by (simp add: round_toward_zero_def floor_eq_iff)
  with n m b c show ?thesis by blast
qed

subsection \<open>The vector converters round differently\<close>

text \<open>
  C1. The claim is that the vector paths and the scalar path give the same bytes for every
  sample in \<open>[-1, 1]\<close>. They do not: \<^verbatim>\<open>cvtps2dq\<close> rounds to nearest where the C++
  conversion drops the fraction. At eight complex samples with every component \<open>0.5\<close>
  (\<open>0.5 * 127 = 63.5\<close>, computed exactly), \<^verbatim>\<open>convert_avx\<close> and \<^verbatim>\<open>convert_sse2\<close> store
  64 sixteen times and \<^verbatim>\<open>convert_default\<close> stores 63; so a call of \<^verbatim>\<open>work\<close> that
  converts them stores other bytes in a vector build than in the scalar build.
\<close>

theorem vector_scalar_differ_at_half:
  "nominal (Finite 1 (- 1)) \<and>
   convert_avx (replicate 16 (Finite 1 (- 1))) 0 (replicate 16 0) 0 1 = Inr (replicate 16 64) \<and>
   convert_sse2 (replicate 16 (Finite 1 (- 1))) 0 (replicate 16 0) 0 1 = Inr (replicate 16 64) \<and>
   convert_default (replicate 16 (Finite 1 (- 1))) 0 (replicate 16 0) 0 16 = Inr (replicate 16 63) \<and>
   work_convert \<lparr>BUF_LEN = 16, BUF_NUM = 1, build = USE_AVX\<rparr>
     (floats_of (replicate 8 (Finite 1 (- 1), Finite 1 (- 1)))) (replicate 16 0) 0 8
     = Inr (replicate 16 64) \<and>
   work_convert \<lparr>BUF_LEN = 16, BUF_NUM = 1, build = NO_SIMD\<rparr>
     (floats_of (replicate 8 (Finite 1 (- 1), Finite 1 (- 1)))) (replicate 16 0) 0 8
     = Inr (replicate 16 63)"
proof -
  have "nominal (Finite 1 (- 1))"
    by (simp add: nominal_def is_finite_def f32_val_def power_int_minus)
  moreover have
    "convert_avx (replicate 16 (Finite 1 (- 1))) 0 (replicate 16 0) 0 1 = Inr (replicate 16 64)"
    by code_simp
  moreover have
    "convert_sse2 (replicate 16 (Finite 1 (- 1))) 0 (replicate 16 0) 0 1 = Inr (replicate 16 64)"
    by code_simp
  moreover have
    "convert_default (replicate 16 (Finite 1 (- 1))) 0 (replicate 16 0) 0 16 = Inr (replicate 16 63)"
    by code_simp
  moreover have
    "work_convert \<lparr>BUF_LEN = 16, BUF_NUM = 1, build = USE_AVX\<rparr>
       (floats_of (replicate 8 (Finite 1 (- 1), Finite 1 (- 1)))) (replicate 16 0) 0 8
     = Inr (replicate 16 64)"
    by code_simp
  moreover have
    "work_convert \<lparr>BUF_LEN = 16, BUF_NUM = 1, build = NO_SIMD\<rparr>
       (floats_of (replicate 8 (Finite 1 (- 1), Finite 1 (- 1)))) (replicate 16 0) 0 8
     = Inr (replicate 16 63)"
    by code_simp
  ultimately show ?thesis by blast
qed

subsection \<open>The ring is a queue of slots\<close>

lemma slot_bounds:
  fixes sz :: nat
  assumes "i < h"
  shows "i * sz + sz \<le> h * sz"
proof -
  have "Suc i * sz \<le> h * sz" using assms by (intro mult_le_mono1) simp
  then show ?thesis by (simp add: add.commute)
qed

lemma take_drop_write_at_before:
  assumes "a + n \<le> off" "off \<le> length mem"
  shows "take n (drop a (write_at mem off bytes)) = take n (drop a mem)"
proof -
  have "take n (drop a (take off mem @ bytes @ drop (off + length bytes) mem)) =
        take n (drop a (take off mem))"
    using assms by simp
  also have "\<dots> = take n (take (off - a) (drop a mem))" by (simp only: drop_take)
  also have "\<dots> = take n (drop a mem)" using assms(1) by (simp add: min_def)
  finally show ?thesis by (simp only: write_at_def)
qed

lemma take_drop_write_at_at:
  "off \<le> length mem \<Longrightarrow> take (length bytes) (drop off (write_at mem off bytes)) = bytes"
  by (simp add: write_at_def min_def)

lemma take_drop_write_at_after:
  "off + length bytes \<le> a \<Longrightarrow> off + length bytes \<le> length mem \<Longrightarrow>
   take n (drop a (write_at mem off bytes)) = take n (drop a mem)"
  by (simp add: write_at_def min_def)

lemma slot_write_at:
  assumes "length mem = cap * sz" "h < cap" "i < cap" "length bytes = sz"
  shows "take sz (drop (i * sz) (write_at mem (h * sz) bytes)) =
         (if i = h then bytes else take sz (drop (i * sz) mem))"
proof -
  have hb: "h * sz + length bytes \<le> length mem"
    unfolding assms(1,4) using assms(2) by (rule slot_bounds)
  then have hl: "h * sz \<le> length mem" by simp
  consider "i = h" | "i < h" | "h < i" by linarith
  then show ?thesis
  proof cases
    case 1
    then show ?thesis using take_drop_write_at_at [OF hl, of bytes] by (simp add: assms(4))
  next
    case 2
    then have "i * sz + sz \<le> h * sz" by (rule slot_bounds)
    then show ?thesis using 2 take_drop_write_at_before [OF _ hl] by simp
  next
    case 3
    then have "h * sz + length bytes \<le> i * sz" unfolding assms(4) by (rule slot_bounds)
    then show ?thesis using 3 take_drop_write_at_after [OF _ hb] by simp
  qed
qed

lemma advance:
  fixes x sz cap :: nat
  assumes "0 < sz" "x mod sz = 0" "x < cap * sz"
  shows "(if x + sz = cap * sz then 0 else x + sz) mod sz = 0 \<and>
         (if x + sz = cap * sz then 0 else x + sz) < cap * sz \<and>
         (if x + sz = cap * sz then 0 else x + sz) div sz = (x div sz + 1) mod cap"
proof -
  define xi where "xi = x div sz"
  have x: "x = xi * sz" using assms(2) div_mult_mod_eq [of x sz] by (simp add: xi_def)
  have xi: "xi < cap" using assms(1,3) unfolding x by simp
  have s: "x + sz = (xi + 1) * sz" by (simp add: x)
  show ?thesis
  proof (cases "xi + 1 = cap")
    case True
    then show ?thesis using assms(1) s xi_def by simp
  next
    case False
    then have lt: "xi + 1 < cap" using xi by simp
    then have "(xi + 1) * sz < cap * sz" using assms(1) by (rule mult_less_mono1)
    moreover from this have "(xi + 1) * sz \<noteq> cap * sz" by (rule less_imp_neq)
    moreover have "((xi + 1) * sz) div sz = xi + 1" using assms(1) by simp
    moreover have "((xi + 1) * sz) mod sz = 0" by simp
    ultimately show ?thesis using lt unfolding s xi_def [symmetric] by simp
  qed
qed

lemma mod_distinct:
  fixes t j c cap :: nat
  assumes "j < c" "c < cap"
  shows "(t + j) mod cap \<noteq> (t + c) mod cap"
proof
  assume "(t + j) mod cap = (t + c) mod cap"
  then have "(t + c) mod cap = (t + j) mod cap" by simp
  then have "cap dvd (t + c) - (t + j)"
    using assms(1) by (subst (asm) mod_eq_dvd_iff_nat) simp_all
  then have "cap dvd c - j" by simp
  moreover have "0 < c - j" "c - j < cap" using assms by simp_all
  ultimately show False using nat_dvd_not_less by blast
qed

lemma cb_push_ok:
  assumes "cb_wf cb" "cb_count cb < cb_capacity cb" "cb_sz cb \<le> length item"
  shows "\<exists>cb'. cb_push_back cb item = Inr (True, cb') \<and> cb_wf cb' \<and>
           cb_contents cb' = cb_contents cb @ [take (cb_sz cb) item] \<and>
           cb_count cb' = cb_count cb + 1 \<and> cb_sz cb' = cb_sz cb \<and>
           cb_capacity cb' = cb_capacity cb"
proof -
  define sz where "sz = cb_sz cb"
  define cap where "cap = cb_capacity cb"
  define hi where "hi = cb_head cb div sz"
  define ti where "ti = cb_tail cb div sz"
  define b' where "b' = write_at (cb_buffer cb) (cb_head cb) (take sz item)"
  define h2 where "h2 = (if cb_head cb + sz = cap * sz then 0 else cb_head cb + sz)"
  define cb' where "cb' = cb\<lparr>cb_buffer := b', cb_head := h2, cb_count := cb_count cb + 1\<rparr>"
  have wf: "0 < sz" "0 < cap" "length (cb_buffer cb) = cap * sz" "cb_buffer_end cb = cap * sz"
    "cb_head cb mod sz = 0" "cb_tail cb mod sz = 0" "cb_head cb < cap * sz" "cb_tail cb < cap * sz"
    "hi = (ti + cb_count cb) mod cap"
    using assms(1) by (simp_all add: cb_wf_def sz_def cap_def hi_def ti_def)
  have head: "cb_head cb = hi * sz" using wf(5) div_mult_mod_eq [of "cb_head cb" sz] by (simp add: hi_def)
  have hi: "hi < cap" using wf(1,7) unfolding head by simp
  have hb: "cb_head cb + sz \<le> cap * sz" unfolding head using hi by (rule slot_bounds)
  have lt: "length (take sz item) = sz" using assms(3) by (simp add: sz_def)
  have adv: "h2 mod sz = 0 \<and> h2 < cap * sz \<and> h2 div sz = (hi + 1) mod cap"
    unfolding h2_def hi_def using wf(1,5,7) by (rule advance)
  have push: "cb_push_back cb item = Inr (True, cb')"
    using assms(2,3) hb wf(3,4)
    by (simp add: cb_push_back_def memcpy_def Let_def cb'_def b'_def h2_def sz_def cap_def)
  have lb: "length b' = cap * sz" using hb wf(3) lt by (simp add: b'_def length_write_at)
  have "(hi + 1) mod cap = (ti + (cb_count cb + 1)) mod cap"
    unfolding wf(9) by (simp add: mod_Suc_eq add.assoc [symmetric])
  then have wf': "cb_wf cb'"
    using wf adv lb assms(2)
    by (simp add: cb_wf_def cb'_def sz_def [symmetric] cap_def [symmetric] ti_def [symmetric])
  have slot: "cb_slot cb' i = (if i = hi then take sz item else cb_slot cb i)" if "i < cap" for i
    using slot_write_at [OF wf(3) hi that lt]
    by (simp add: cb_slot_def cb'_def b'_def head sz_def [symmetric])
  have "cb_contents cb' =
        map (\<lambda>j. cb_slot cb' ((ti + j) mod cap)) [0..<cb_count cb] @ [cb_slot cb' ((ti + cb_count cb) mod cap)]"
    by (simp add: cb_contents_def cb'_def sz_def [symmetric] cap_def [symmetric] ti_def [symmetric])
  also have "map (\<lambda>j. cb_slot cb' ((ti + j) mod cap)) [0..<cb_count cb] = cb_contents cb"
  proof -
    have "cb_slot cb' ((ti + j) mod cap) = cb_slot cb ((ti + j) mod cap)" if "j < cb_count cb" for j
    proof -
      have "(ti + j) mod cap \<noteq> hi"
        unfolding wf(9) using that assms(2) by (intro mod_distinct) (simp_all add: cap_def)
      moreover have "(ti + j) mod cap < cap" using wf(2) by simp
      ultimately show ?thesis using slot by simp
    qed
    then show ?thesis
      by (simp add: cb_contents_def sz_def [symmetric] cap_def [symmetric] ti_def [symmetric])
  qed
  also have "cb_slot cb' ((ti + cb_count cb) mod cap) = take sz item"
    using slot [OF hi] by (simp add: wf(9) [symmetric])
  finally have "cb_contents cb' = cb_contents cb @ [take (cb_sz cb) item]" by (simp add: sz_def)
  then show ?thesis using push wf' by (auto simp: cb'_def)
qed


lemma length_cb_contents: "length (cb_contents cb) = cb_count cb"
  by (simp add: cb_contents_def)

lemma length_cb_slots:
  assumes "cb_wf cb" "b \<in> set (cb_contents cb)"
  shows "length b = cb_sz cb"
proof -
  obtain j where b: "b = cb_slot cb ((cb_tail cb div cb_sz cb + j) mod cb_capacity cb)"
    using assms(2) by (auto simp: cb_contents_def)
  have "(cb_tail cb div cb_sz cb + j) mod cb_capacity cb < cb_capacity cb"
    using assms(1) by (simp add: cb_wf_def)
  then have "(cb_tail cb div cb_sz cb + j) mod cb_capacity cb * cb_sz cb + cb_sz cb
             \<le> cb_capacity cb * cb_sz cb"
    by (rule slot_bounds)
  then show ?thesis using assms(1) by (simp add: b cb_slot_def cb_wf_def)
qed

lemma cb_pop_ok:
  assumes "cb_wf cb" "0 < cb_count cb" "cb_sz cb \<le> length dest"
  shows "\<exists>cb'. cb_pop_front cb dest = Inr (True, write_at dest 0 (hd (cb_contents cb)), cb') \<and>
           cb_wf cb' \<and> cb_contents cb' = tl (cb_contents cb) \<and>
           cb_count cb' = cb_count cb - 1 \<and> cb_sz cb' = cb_sz cb \<and>
           cb_capacity cb' = cb_capacity cb"
proof -
  define sz where "sz = cb_sz cb"
  define cap where "cap = cb_capacity cb"
  define hi where "hi = cb_head cb div sz"
  define ti where "ti = cb_tail cb div sz"
  define t2 where "t2 = (if cb_tail cb + sz = cap * sz then 0 else cb_tail cb + sz)"
  define cb' where "cb' = cb\<lparr>cb_tail := t2, cb_count := cb_count cb - 1\<rparr>"
  have wf: "0 < sz" "0 < cap" "length (cb_buffer cb) = cap * sz" "cb_buffer_end cb = cap * sz"
    "cb_head cb mod sz = 0" "cb_tail cb mod sz = 0" "cb_head cb < cap * sz" "cb_tail cb < cap * sz"
    "hi = (ti + cb_count cb) mod cap" "cb_count cb \<le> cap"
    using assms(1) by (simp_all add: cb_wf_def sz_def cap_def hi_def ti_def)
  have tail: "cb_tail cb = ti * sz"
    using wf(6) div_mult_mod_eq [of "cb_tail cb" sz] by (simp add: ti_def)
  have ti: "ti < cap" using wf(1,8) unfolding tail by simp
  have tb: "cb_tail cb + sz \<le> cap * sz" unfolding tail using ti by (rule slot_bounds)
  have adv: "t2 mod sz = 0 \<and> t2 < cap * sz \<and> t2 div sz = (ti + 1) mod cap"
    unfolding t2_def ti_def using wf(1,6,8) by (rule advance)
  have h0: "hd (cb_contents cb) = cb_slot cb ti"
    using assms(2) ti
    by (simp add: cb_contents_def upt_conv_Cons sz_def [symmetric] cap_def [symmetric] ti_def [symmetric])
  have pop: "cb_pop_front cb dest = Inr (True, write_at dest 0 (hd (cb_contents cb)), cb')"
    using assms(2,3) tb wf(3,4)
    by (simp add: cb_pop_front_def memcpy_def Let_def cb'_def t2_def sz_def [symmetric]
        cap_def [symmetric] h0 cb_slot_def tail)
  have "((ti + 1) mod cap + (cb_count cb - 1)) mod cap = (ti + 1 + (cb_count cb - 1)) mod cap"
    by (rule mod_add_left_eq)
  also have "ti + 1 + (cb_count cb - 1) = ti + cb_count cb" using assms(2) by simp
  finally have wf': "cb_wf cb'"
    using wf adv
    by (simp add: cb_wf_def cb'_def sz_def [symmetric] cap_def [symmetric] hi_def [symmetric])
  have "cb_contents cb' = tl (cb_contents cb)"
  proof (rule nth_equalityI)
    show "length (cb_contents cb') = length (tl (cb_contents cb))"
      by (simp add: length_cb_contents cb'_def)
  next
    fix i assume "i < length (cb_contents cb')"
    then have i: "i < cb_count cb - 1" by (simp add: length_cb_contents cb'_def)
    have "((ti + 1) mod cap + i) mod cap = (ti + Suc i) mod cap"
      by (simp add: mod_add_left_eq)
    moreover have "Suc i < cb_count cb" using i by simp
    ultimately show "cb_contents cb' ! i = tl (cb_contents cb) ! i"
      using i adv
      by (simp add: nth_tl length_cb_contents cb_contents_def cb'_def cb_slot_def
          sz_def [symmetric] cap_def [symmetric] ti_def [symmetric])
  qed
  then show ?thesis using pop wf' by (auto simp: cb'_def)
qed


subsection \<open>Ring buffer boundary behaviour\<close>

text \<open>
  C8. Pushing onto a full ring (the occupied count equals the capacity) returns failure and
  leaves the whole ring (occupancy, head, tail, stored bytes) as it was; popping an empty
  ring (the count is 0) returns failure and leaves the ring, and the caller's buffer, as
  they were.
\<close>

theorem cb_full_push_empty_pop_noop:
  "(cb_count cb = cb_capacity cb \<longrightarrow> cb_push_back cb item = Inr (False, cb)) \<and>
   (cb_count cb = 0 \<longrightarrow> cb_pop_front cb dest = Inr (False, dest, cb))"
  by (simp add: cb_push_back_def cb_pop_front_def)

theorem cb_full_push_empty_pop_noop_witness:
  "cb_count \<lparr>cb_buffer = [1, 2], cb_buffer_end = 2, cb_capacity = 1, cb_count = 1,
             cb_sz = 2, cb_head = 0, cb_tail = 0\<rparr>
     = cb_capacity \<lparr>cb_buffer = [1, 2], cb_buffer_end = 2, cb_capacity = 1, cb_count = 1,
             cb_sz = 2, cb_head = 0, cb_tail = 0\<rparr> \<and>
   cb_push_back \<lparr>cb_buffer = [1, 2], cb_buffer_end = 2, cb_capacity = 1, cb_count = 1,
             cb_sz = 2, cb_head = 0, cb_tail = 0\<rparr> [7, 8]
     = Inr (False, \<lparr>cb_buffer = [1, 2], cb_buffer_end = 2, cb_capacity = 1, cb_count = 1,
             cb_sz = 2, cb_head = 0, cb_tail = 0\<rparr>) \<and>
   cb_count \<lparr>cb_buffer = [1, 2], cb_buffer_end = 2, cb_capacity = 1, cb_count = 0,
             cb_sz = 2, cb_head = 0, cb_tail = 0\<rparr> = 0 \<and>
   cb_pop_front \<lparr>cb_buffer = [1, 2], cb_buffer_end = 2, cb_capacity = 1, cb_count = 0,
             cb_sz = 2, cb_head = 0, cb_tail = 0\<rparr> [7, 8]
     = Inr (False, [7, 8], \<lparr>cb_buffer = [1, 2], cb_buffer_end = 2, cb_capacity = 1, cb_count = 0,
             cb_sz = 2, cb_head = 0, cb_tail = 0\<rparr>)"
  using cb_full_push_empty_pop_noop
    [of "\<lparr>cb_buffer = [1, 2], cb_buffer_end = 2, cb_capacity = 1, cb_count = 1,
             cb_sz = 2, cb_head = 0, cb_tail = 0\<rparr>" "[7, 8]"]
    cb_full_push_empty_pop_noop
    [of "\<lparr>cb_buffer = [1, 2], cb_buffer_end = 2, cb_capacity = 1, cb_count = 0,
             cb_sz = 2, cb_head = 0, cb_tail = 0\<rparr>" _ "[7, 8]"]
  by simp

subsection \<open>What one call of work does\<close>

lemma usub32_eq: "b \<le> a \<Longrightarrow> a < 2 ^ 32 \<Longrightarrow> usub32 a b = a - b"
proof -
  assume ba: "b \<le> a" and a: "a < 2 ^ 32"
  have "a + 2 ^ 32 - b mod 2 ^ 32 = (a - b) + 2 ^ 32" using ba a by simp
  then show ?thesis using a by (simp add: usub32_def)
qed

lemma nominal_floats:
  assumes "\<forall>s \<in> set input. nominal_sample s" "j < 2 * length input"
  shows "nominal (floats_of input ! j)"
proof -
  have "floats_of input ! j \<in> set (floats_of input)"
    using assms(2) by (simp add: length_floats_of)
  then show ?thesis using assms(1) by (auto simp: set_floats_of nominal_sample_def)
qed

lemma length_converted: "length (converted cfg xs) = 2 * length xs"
proof -
  have v: "length (map vector_byte (floats_of (take k xs)) @ interleaved (drop k xs)) = 2 * length xs" for k
  proof -
    have "length (take k xs) + length (drop k xs) = length xs"
      by (simp only: length_append [symmetric] append_take_drop_id)
    moreover have "length (map vector_byte (floats_of (take k xs)) @ interleaved (drop k xs)) =
          2 * length (take k xs) + 2 * length (drop k xs)"
      by (simp only: length_append length_map length_floats_of length_interleaved)
    ultimately show ?thesis by linarith
  qed
  show ?thesis
    by (cases "build cfg") (simp_all only: converted_def simd.case v length_interleaved)
qed

lemma work_convert_ok:
  assumes "count \<le> length input" "boff + 2 * count \<le> length b"
      and "\<forall>s \<in> set input. nominal_sample s"
  shows "work_convert cfg (floats_of input) b boff count =
         Inr (write_at b boff (converted cfg (take count input)))"
proof -
  define q where "q = count div 8"
  define r where "r = count mod 8"
  define fl where "fl = floats_of input"
  have cnt: "count = 8 * q + r" by (simp add: q_def r_def)
  have lfl: "length fl = 2 * length input" by (simp add: fl_def length_floats_of)
  have nom: "\<forall>j<k. nominal (fl ! (off + j))" if "off + k \<le> 2 * length input" for off k
    using that nominal_floats [OF assms(3)] by (simp add: fl_def)
  have scalar: "convert_default fl 0 b boff (count * 2) =
                Inr (write_at b boff (interleaved (take count input)))"
  proof -
    have "convert_default fl 0 b boff (count * 2) =
          Inr (write_at b boff (map scaled_byte (take (count * 2) (drop 0 fl))))"
      using assms(1,2) lfl by (intro convert_default_ok nom) simp_all
    then show ?thesis
      by (simp add: fl_def interleaved_floats take_floats_of [symmetric] mult.commute)
  qed
  define A where "A = map vector_byte (take (16 * q) fl)"
  define B where "B = map scaled_byte (take (r * 2) (drop (q * 8 * 2) fl))"
  have lA: "length A = 16 * q" using assms(1) cnt lfl by (simp add: A_def)
  have lB: "length B = 2 * r" using assms(1) cnt lfl by (simp add: B_def)
  have rest: "convert_default fl (q * 8 * 2) (write_at b boff A) (boff + q * 8 * 2) (r * 2) =
              Inr (write_at b boff (A @ B))"
  proof -
    have "length (write_at b boff A) = length b"
      using assms(2) cnt lA by (intro length_write_at) simp
    then have "convert_default fl (q * 8 * 2) (write_at b boff A) (boff + q * 8 * 2) (r * 2) =
          Inr (write_at (write_at b boff A) (boff + q * 8 * 2) B)"
      unfolding B_def using assms(1,2) cnt lfl by (intro convert_default_ok nom) simp_all
    moreover have "write_at (write_at b boff A) (boff + length A) B = write_at b boff (A @ B)"
      using assms(2) cnt lA lB by (intro write_at_write_at) simp
    ultimately show ?thesis by (simp add: lA)
  qed
  have AB: "A @ B = map vector_byte (floats_of (take (length (take count input) div 8 * 8) (take count input))) @
                   interleaved (drop (length (take count input) div 8 * 8) (take count input))"
  proof -
    have l: "length (take count input) = count" using assms(1) by simp
    have q8: "count div 8 * 8 = 8 * q" by (simp add: q_def)
    have "take (8 * q) (take count input) = take (8 * q) input" using cnt by (simp add: min_def)
    then have a: "floats_of (take (8 * q) (take count input)) = take (16 * q) fl"
      using take_floats_of [of "8 * q" input] by (simp add: fl_def)
    have "drop (8 * q) (take count input) = take r (drop (8 * q) input)"
      using cnt by (simp add: drop_take)
    moreover have "floats_of (take r (drop (8 * q) input)) = take (2 * r) (floats_of (drop (8 * q) input))"
      by (rule take_floats_of [symmetric])
    moreover have "floats_of (drop (8 * q) input) = drop (2 * (8 * q)) fl"
      unfolding fl_def by (rule drop_floats_of [symmetric])
    ultimately have "floats_of (drop (8 * q) (take count input)) = take (2 * r) (drop (2 * (8 * q)) fl)"
      by simp
    then have b: "interleaved (drop (8 * q) (take count input)) = B"
      by (simp add: interleaved_floats B_def mult.commute)
    show ?thesis unfolding l q8 a b by (simp add: A_def)
  qed
  have avx: "convert_avx fl 0 b boff q = Inr (write_at b boff A)"
    using convert_avx_ok [of 0 q fl boff b] assms(1,2) cnt lfl by (simp add: A_def)
  have sse: "convert_sse2 fl 0 b boff q = Inr (write_at b boff A)"
    using convert_sse2_ok [of 0 q fl boff b] assms(1,2) cnt lfl by (simp add: A_def)
  show ?thesis
  proof (cases "build cfg")
    case USE_AVX
    then show ?thesis
      using avx rest AB
      by (simp add: work_convert_def Let_def converted_def fl_def [symmetric] q_def [symmetric] r_def [symmetric])
  next
    case USE_SSE2
    then show ?thesis
      using sse rest AB
      by (simp add: work_convert_def Let_def converted_def fl_def [symmetric] q_def [symmetric] r_def [symmetric])
  next
    case NO_SIMD
    then show ?thesis
      using scalar by (simp add: work_convert_def Let_def converted_def fl_def [symmetric])
  qed
qed


lemma convert_default_loop_length:
  "convert_default_loop inbuf ioff outbuf ooff count i = Inr out \<Longrightarrow> length out = length outbuf"
proof (induction "count - i" arbitrary: i outbuf)
  case 0
  then show ?case by (simp add: convert_default_loop.simps)
next
  case (Suc n)
  then have i: "i < count" by simp
  have n: "n = count - (i + 1)" using Suc.hyps(2) by simp
  show ?case
    using Suc.prems i Suc.hyps(1) [OF n]
    by (subst (asm) convert_default_loop.simps)
       (auto split: if_splits sum.splits)
qed

lemma convert_avx_loop_length:
  "convert_avx_loop inbuf ioff outbuf ooff count i = Inr out \<Longrightarrow> length out = length outbuf"
proof (induction "count - i" arbitrary: i outbuf)
  case 0
  then show ?case by (simp add: convert_avx_loop.simps)
next
  case (Suc n)
  then have i: "i < count" by simp
  have n: "n = count - (i + 1)" using Suc.hyps(2) by simp
  show ?case
    using Suc.prems i Suc.hyps(1) [OF n]
    by (subst (asm) convert_avx_loop.simps)
       (auto simp: Let_def storeu_si128_def length_write_at packs_epi16_def packs_epi32_def
          cvtps_epi32_def mul_ps_def loadu_ps_def split: if_splits sum.splits)
qed

lemma convert_sse2_loop_length:
  "convert_sse2_loop inbuf ioff outbuf ooff count i = Inr out \<Longrightarrow> length out = length outbuf"
proof (induction "count - i" arbitrary: i outbuf)
  case 0
  then show ?case by (simp add: convert_sse2_loop.simps)
next
  case (Suc n)
  then have i: "i < count" by simp
  have n: "n = count - (i + 1)" using Suc.hyps(2) by simp
  show ?case
    using Suc.prems i Suc.hyps(1) [OF n]
    by (subst (asm) convert_sse2_loop.simps)
       (auto simp: Let_def storeu_si128_def length_write_at packs_epi16_def packs_epi32_def
          cvtps_epi32_def mul_ps_def loadu_ps_def split: if_splits sum.splits)
qed

lemma work_convert_length:
  assumes "work_convert cfg fl b boff count = Inr b'"
  shows "length b' = length b"
proof (cases "build cfg")
  case USE_AVX
  then show ?thesis
    using assms convert_avx_loop_length convert_default_loop_length
    by (fastforce simp: work_convert_def Let_def convert_avx_def convert_default_def
        split: sum.splits)
next
  case USE_SSE2
  then show ?thesis
    using assms convert_sse2_loop_length convert_default_loop_length
    by (fastforce simp: work_convert_def Let_def convert_sse2_def convert_default_def
        split: sum.splits)
next
  case NO_SIMD
  then show ?thesis
    using assms convert_default_loop_length
    by (fastforce simp: work_convert_def Let_def convert_default_def)
qed

lemma work_body_unfold:
  assumes "cfg_ok cfg" "sink_inv cfg s" "n \<le> length input"
      and "\<forall>x \<in> set input. nominal_sample x"
  shows "work_body cfg s n input =
     (let c = min n ((BUF_LEN cfg - buf_used s) div 2);
          s1 = s\<lparr>buf := write_at (buf s) (buf_used s) (converted cfg (take c input)),
                 buf_used := buf_used s + 2 * c\<rparr>
      in if (BUF_LEN cfg - buf_used s) div 2 \<le> n then
           (case cb_push_back (cbuf s) (buf s1) of
              Inl f \<Rightarrow> Inl f
            | Inr (pushed, cb) \<Rightarrow>
                if \<not> pushed
                then Inr (0, s1\<lparr>cbuf := cb, buf_used := buf_used s, cerr := cerr s @ [Str ''O'']\<rparr>)
                else Inr (c, s1\<lparr>cbuf := cb, buf_used := 0\<rparr>))
         else Inr (c, s1))"
proof -
  define c where "c = min n ((BUF_LEN cfg - buf_used s) div 2)"
  have u: "usub32 (BUF_LEN cfg) (buf_used s) = BUF_LEN cfg - buf_used s"
    using assms(1,2) by (intro usub32_eq) (simp_all add: cfg_ok_def sink_inv_def)
  have c1: "c \<le> length input" using assms(3) by (simp add: c_def)
  have "2 * c \<le> BUF_LEN cfg - buf_used s" by (simp add: c_def)
  moreover have "buf_used s < BUF_LEN cfg" "length (buf s) = BUF_LEN cfg"
    using assms(2) by (simp_all add: sink_inv_def)
  ultimately have c2: "buf_used s + 2 * c \<le> length (buf s)" by linarith
  have conv: "work_convert cfg (floats_of input) (buf s) (buf_used s) c =
        Inr (write_at (buf s) (buf_used s) (converted cfg (take c input)))"
    using c1 c2 assms(4) by (rule work_convert_ok)
  have dm: "(c div 8 * 8 + c mod 8) * 2 = 2 * c" by simp
  show ?thesis
    unfolding work_body_def u Let_def c_def [symmetric] conv dm
    by (simp add: mult.commute split: sum.splits prod.splits)
qed

lemma staging_full:
  assumes "cfg_ok cfg" "sink_inv cfg s"
  shows "buf_used s + 2 * ((BUF_LEN cfg - buf_used s) div 2) = BUF_LEN cfg"
    and "0 < (BUF_LEN cfg - buf_used s) div 2"
proof -
  obtain k where k: "BUF_LEN cfg = 2 * k" using assms(1) by (auto simp: cfg_ok_def elim: evenE)
  obtain j where j: "buf_used s = 2 * j" using assms(2) by (auto simp: sink_inv_def elim: evenE)
  have jk: "j < k" using assms(2) k j by (simp add: sink_inv_def)
  have d: "(BUF_LEN cfg - buf_used s) div 2 = k - j"
    unfolding k j by (simp add: diff_mult_distrib2 [symmetric])
  show "buf_used s + 2 * ((BUF_LEN cfg - buf_used s) div 2) = BUF_LEN cfg"
    unfolding d using jk by (simp add: k j)
  show "0 < (BUF_LEN cfg - buf_used s) div 2"
    unfolding d using jk by simp
qed


lemma converted_Nil: "converted cfg [] = []"
  by (cases "build cfg") (simp_all add: converted_def interleaved_def floats_of_Nil)

lemma work_body_partial:
  assumes "cfg_ok cfg" "sink_inv cfg s" "n \<le> length input"
      and "\<forall>x \<in> set input. nominal_sample x"
      and "n < (BUF_LEN cfg - buf_used s) div 2"
  shows "work_body cfg s n input =
         Inr (n, s\<lparr>buf := write_at (buf s) (buf_used s) (converted cfg (take n input)),
                   buf_used := buf_used s + 2 * n\<rparr>)"
  using assms(5) unfolding work_body_unfold [OF assms(1-4)]
  by (simp add: Let_def min_def)

lemma work_body_push:
  assumes "cfg_ok cfg" "sink_inv cfg s" "n \<le> length input"
      and "\<forall>x \<in> set input. nominal_sample x"
      and "(BUF_LEN cfg - buf_used s) div 2 \<le> n"
      and "cb_count (cbuf s) < cb_capacity (cbuf s)"
  shows "\<exists>cb'. work_body cfg s n input =
           Inr ((BUF_LEN cfg - buf_used s) div 2,
                s\<lparr>buf := take (buf_used s) (buf s) @
                            converted cfg (take ((BUF_LEN cfg - buf_used s) div 2) input),
                  buf_used := 0, cbuf := cb'\<rparr>) \<and>
           cb_wf cb' \<and>
           cb_contents cb' = cb_contents (cbuf s) @
             [take (buf_used s) (buf s) @ converted cfg (take ((BUF_LEN cfg - buf_used s) div 2) input)] \<and>
           cb_count cb' = cb_count (cbuf s) + 1 \<and> cb_sz cb' = cb_sz (cbuf s) \<and>
           cb_capacity cb' = cb_capacity (cbuf s)"
proof -
  define r where "r = (BUF_LEN cfg - buf_used s) div 2"
  define b' where "b' = take (buf_used s) (buf s) @ converted cfg (take r input)"
  have full: "buf_used s + 2 * r = BUF_LEN cfg"
    unfolding r_def using assms(1,2) by (rule staging_full)
  have inv: "length (buf s) = BUF_LEN cfg" "cb_wf (cbuf s)" "cb_sz (cbuf s) = BUF_LEN cfg"
    using assms(2) by (simp_all add: sink_inv_def)
  have lr: "length (take r input) = r" using assms(3,5) by (simp add: r_def)
  have w: "write_at (buf s) (buf_used s) (converted cfg (take r input)) = b'"
    using full inv(1) lr by (simp add: write_at_def b'_def length_converted)
  have lb: "length b' = BUF_LEN cfg"
    using full inv(1) lr by (simp add: b'_def length_converted)
  obtain cb' where push: "cb_push_back (cbuf s) b' = Inr (True, cb')" and wf: "cb_wf cb'"
    and cont: "cb_contents cb' = cb_contents (cbuf s) @ [take (cb_sz (cbuf s)) b']"
    and rest: "cb_count cb' = cb_count (cbuf s) + 1" "cb_sz cb' = cb_sz (cbuf s)"
      "cb_capacity cb' = cb_capacity (cbuf s)"
    using cb_push_ok [OF inv(2) assms(6), of b'] inv(3) lb by auto
  have "work_body cfg s n input = Inr (r, s\<lparr>buf := b', buf_used := 0, cbuf := cb'\<rparr>)"
    using assms(5) push unfolding work_body_unfold [OF assms(1-4)]
    by (simp add: Let_def min_def r_def [symmetric] w)
  then show ?thesis
    using wf cont rest inv(3) lb unfolding r_def [symmetric] b'_def [symmetric] by auto
qed

lemma work_body_overrun:
  assumes "cfg_ok cfg" "sink_inv cfg s" "n \<le> length input"
      and "\<forall>x \<in> set input. nominal_sample x"
      and "(BUF_LEN cfg - buf_used s) div 2 \<le> n"
      and "cb_count (cbuf s) = cb_capacity (cbuf s)"
  shows "work_body cfg s n input =
           Inr (0, s\<lparr>buf := take (buf_used s) (buf s) @
                            converted cfg (take ((BUF_LEN cfg - buf_used s) div 2) input),
                     cerr := cerr s @ [Str ''O'']\<rparr>)"
proof -
  define r where "r = (BUF_LEN cfg - buf_used s) div 2"
  have full: "buf_used s + 2 * r = BUF_LEN cfg"
    unfolding r_def using assms(1,2) by (rule staging_full)
  have inv: "length (buf s) = BUF_LEN cfg"
    using assms(2) by (simp_all add: sink_inv_def)
  have lr: "length (take r input) = r" using assms(3,5) by (simp add: r_def)
  have w: "write_at (buf s) (buf_used s) (converted cfg (take r input)) =
           take (buf_used s) (buf s) @ converted cfg (take r input)"
    using full inv(1) lr by (simp add: write_at_def length_converted)
  show ?thesis
    using assms(5,6) unfolding work_body_unfold [OF assms(1-4)]
    by (simp add: Let_def min_def r_def [symmetric] w cb_push_back_def)
qed

lemma ex_sink_simps:
  "buf ex_sink = [9, 9, 9, 9]" "buf_used ex_sink = 0" "stopping ex_sink = False"
  "cbuf ex_sink = \<lparr>cb_buffer = replicate 8 9, cb_buffer_end = 8, cb_capacity = 2, cb_count = 0,
                   cb_sz = 4, cb_head = 0, cb_tail = 0\<rparr>"
  "dev ex_sink = Some \<lparr>streaming = False\<rparr>" "cerr ex_sink = []" "notified ex_sink = 0"
  by (simp_all add: ex_sink_def new_hackrf_sink_c_def ex_cfg_def cb_init_def)

lemma ex_ok: "cfg_ok ex_cfg" "sink_inv ex_cfg ex_sink" "cb_has_room (cbuf ex_sink)"
  by (simp_all add: cfg_ok_def sink_inv_def ex_sink_simps cb_wf_def cb_has_room_def ex_cfg_def)

lemma nominal_examples:
  "nominal (Finite 1 (- 1))" "nominal (Finite 1 0)" "nominal (Finite (- 1) 0)" "nominal (Finite 0 0)"
  by (simp_all add: nominal_def is_finite_def f32_val_def power_int_minus)

lemma work_returns:
  assumes "cfg_ok cfg" and "sink_inv cfg s" and "cb_has_room (cbuf s)"
      and "n \<le> length input" and "\<forall>x \<in> set input. nominal_sample x"
  shows "\<exists>s'. work cfg s n input = Inr (min n ((BUF_LEN cfg - buf_used s) div 2), s') \<and>
              (n = 0 \<longrightarrow> s' = s)"
proof (cases "n < (BUF_LEN cfg - buf_used s) div 2")
  case True
  have "0 \<le> length (buf s)" by simp
  have u: "buf_used s \<le> length (buf s)" using assms(2) by (simp add: sink_inv_def)
  have "work cfg s n input =
        Inr (n, s\<lparr>buf := write_at (buf s) (buf_used s) (converted cfg (take n input)),
                  buf_used := buf_used s + 2 * n\<rparr>)"
    using assms(3) work_body_partial [OF assms(1,2,4,5) True]
    by (simp add: work_def wait_for_room_def)
  then show ?thesis using True u by (auto simp: min_def converted_Nil write_at_Nil)
next
  case False
  then have r: "(BUF_LEN cfg - buf_used s) div 2 \<le> n" by simp
  have room: "cb_count (cbuf s) < cb_capacity (cbuf s)"
    using assms(2,3) by (auto simp: cb_has_room_def sink_inv_def cb_wf_def split: if_splits)
  have pos: "0 < (BUF_LEN cfg - buf_used s) div 2" using assms(1,2) by (rule staging_full)
  then have "n \<noteq> 0" using r by simp
  moreover obtain s' where "work_body cfg s n input = Inr ((BUF_LEN cfg - buf_used s) div 2, s')"
    using work_body_push [OF assms(1,2,4,5) r room] by blast
  ultimately show ?thesis using r assms(3) by (auto simp: work_def wait_for_room_def min_def)
qed

subsection \<open>How much a call of work consumes\<close>

text \<open>
  C3. In a well-formed state (the staging buffer filled to an even count \<open>b\<close> below
  \<^verbatim>\<open>BUF_LEN\<close>) with room in the ring, a call of \<^verbatim>\<open>work\<close> offered \<open>n\<close> samples returns
  and consumes \<open>min n ((BUF_LEN - b) / 2)\<close> of them; offered no sample it consumes none and
  leaves the whole sink as it was.
\<close>

theorem work_consumes_min:
  assumes "cfg_ok cfg" and "sink_inv cfg s" and "cb_has_room (cbuf s)"
      and "n \<le> length input" and "\<forall>x \<in> set input. nominal_sample x"
  shows "\<exists>s'. work cfg s n input = Inr (min n ((BUF_LEN cfg - buf_used s) div 2), s') \<and>
              (n = 0 \<longrightarrow> s' = s)"
  using assms by (rule work_returns)

theorem work_consumes_min_witness:
  "cfg_ok ex_cfg \<and> sink_inv ex_cfg ex_sink \<and> cb_has_room (cbuf ex_sink) \<and>
   (\<exists>s'. work ex_cfg ex_sink 1 [(Finite 1 (- 1), Finite 1 0)] = Inr (1, s')) \<and>
   work ex_cfg ex_sink 0 [] = Inr (0, ex_sink)"
proof -
  have "\<exists>s'. work ex_cfg ex_sink 1 [(Finite 1 (- 1), Finite 1 0)] = Inr (1, s')"
    using work_consumes_min [OF ex_ok, of 1 "[(Finite 1 (- 1), Finite 1 0)]"]
    by (simp add: nominal_sample_def nominal_examples ex_sink_simps ex_cfg_def)
  moreover have "work ex_cfg ex_sink 0 [] = Inr (0, ex_sink)"
    using work_consumes_min [OF ex_ok, of 0 "[]"] by auto
  ultimately show ?thesis using ex_ok by blast
qed

lemma ex_full_simps:
  "buf ex_full_sink = [9, 9, 9, 9]" "buf_used ex_full_sink = 2" "stopping ex_full_sink = False"
  "cbuf ex_full_sink = \<lparr>cb_buffer = replicate 8 9, cb_buffer_end = 8, cb_capacity = 2, cb_count = 2,
                   cb_sz = 4, cb_head = 0, cb_tail = 0\<rparr>"
  "dev ex_full_sink = Some \<lparr>streaming = False\<rparr>" "cerr ex_full_sink = []" "notified ex_full_sink = 0"
  by (simp_all add: ex_full_sink_def ex_sink_simps)

lemma ex_full_ok: "sink_inv ex_cfg ex_full_sink"
  by (simp add: sink_inv_def ex_full_simps cb_wf_def ex_cfg_def)

subsection \<open>A failed push in work\<close>

text \<open>
  C4. When \<^verbatim>\<open>work\<close>, past its wait for room, has samples enough to fill the staging
  buffer and finds the ring full, so that its \<^verbatim>\<open>cb_push_back\<close> fails, it consumes 0
  samples, puts the fill counter back to its value before the call, and leaves the ring,
  the stopping flag and the bytes filled before the call as they were; it writes the
  marker \<open>O\<close>. The caller can offer the same input again.
\<close>

theorem work_push_failure_is_noop:
  assumes "cfg_ok cfg" and "sink_inv cfg s" and "n \<le> length input"
      and "\<forall>x \<in> set input. nominal_sample x"
      and "(BUF_LEN cfg - buf_used s) div 2 \<le> n"
      and "cb_count (cbuf s) = cb_capacity (cbuf s)"
  shows "\<exists>s'. cb_push_back (cbuf s) (buf s') = Inr (False, cbuf s) \<and>
              work_body cfg s n input = Inr (0, s') \<and>
              buf_used s' = buf_used s \<and> cbuf s' = cbuf s \<and> stopping s' = stopping s \<and>
              take (buf_used s) (buf s') = take (buf_used s) (buf s) \<and>
              cerr s' = cerr s @ [Str ''O''] \<and> sink_inv cfg s'"
proof -
  define b' where "b' = take (buf_used s) (buf s) @
                         converted cfg (take ((BUF_LEN cfg - buf_used s) div 2) input)"
  define s' where "s' = s\<lparr>buf := b', cerr := cerr s @ [Str ''O'']\<rparr>"
  have w: "work_body cfg s n input = Inr (0, s')"
    unfolding s'_def b'_def using assms by (rule work_body_overrun)
  have full: "buf_used s + 2 * ((BUF_LEN cfg - buf_used s) div 2) = BUF_LEN cfg"
    using assms(1,2) by (rule staging_full)
  have inv: "length (buf s) = BUF_LEN cfg" "buf_used s < BUF_LEN cfg"
    using assms(2) by (simp_all add: sink_inv_def)
  have "length (take ((BUF_LEN cfg - buf_used s) div 2) input) = (BUF_LEN cfg - buf_used s) div 2"
    using assms(3,5) by simp
  then have lb: "length b' = BUF_LEN cfg"
    using full inv by (simp add: b'_def length_converted)
  have "take (buf_used s) b' = take (buf_used s) (buf s)"
    using inv by (simp add: b'_def)
  moreover have "sink_inv cfg s'" using assms(2) lb by (simp add: sink_inv_def s'_def)
  moreover have "cb_push_back (cbuf s) (buf s') = Inr (False, cbuf s)"
    using assms(6) by (simp add: cb_push_back_def)
  ultimately show ?thesis using w by (auto simp: s'_def)
qed

theorem work_push_failure_is_noop_witness:
  "cfg_ok ex_cfg \<and> sink_inv ex_cfg ex_full_sink \<and>
   (BUF_LEN ex_cfg - buf_used ex_full_sink) div 2 \<le> 3 \<and>
   cb_count (cbuf ex_full_sink) = cb_capacity (cbuf ex_full_sink) \<and>
   (\<exists>s'. work_body ex_cfg ex_full_sink 3 [(Finite 1 (- 1), Finite 1 0), (Finite 0 0, Finite 0 0),
            (Finite 0 0, Finite 0 0)] = Inr (0, s') \<and>
         buf_used s' = 2 \<and> cbuf s' = cbuf ex_full_sink \<and> cerr s' = [Str ''O''])"
proof -
  have "\<exists>s'. work_body ex_cfg ex_full_sink 3 [(Finite 1 (- 1), Finite 1 0), (Finite 0 0, Finite 0 0),
            (Finite 0 0, Finite 0 0)] = Inr (0, s') \<and>
         buf_used s' = 2 \<and> cbuf s' = cbuf ex_full_sink \<and> cerr s' = [Str ''O'']"
    using work_push_failure_is_noop [OF ex_ok(1) ex_full_ok, of 3
        "[(Finite 1 (- 1), Finite 1 0), (Finite 0 0, Finite 0 0), (Finite 0 0, Finite 0 0)]"]
    by (simp add: nominal_sample_def nominal_examples ex_full_simps ex_cfg_def) blast
  then show ?thesis
    using ex_ok(1) ex_full_ok by (simp add: ex_full_simps ex_cfg_def)
qed

subsection \<open>The hardware callback on an empty ring\<close>

text \<open>
  C6. Called with an empty ring and a transfer buffer of at least \<open>len\<close> bytes, the
  callback zeroes the \<open>len\<close> bytes it was asked for (the whole buffer when \<open>len\<close> is its
  length). When the stopping flag is not set it writes the underrun marker \<open>U\<close>, returns 0
  and changes nothing else: the ring is still empty and the flag unchanged. When the flag
  is set it signals the condition variable and returns \<open>-1\<close>, the status that ends the
  transfers.
\<close>

theorem callback_on_empty_ring:
  assumes "cb_count (cbuf s) = 0" and "len \<le> length buffer"
  shows "hackrf_tx_callback s buffer len =
           (if stopping s
            then Inr (- 1, replicate len 0 @ drop len buffer, s\<lparr>notified := notified s + 1\<rparr>)
            else Inr (0, replicate len 0 @ drop len buffer, s\<lparr>cerr := cerr s @ [Str ''U'']\<rparr>))"
  using assms
  by (simp add: hackrf_tx_callback_def cb_pop_front_def memset_def write_at_def)

theorem callback_on_empty_ring_witness:
  "cb_count (cbuf ex_sink) = 0 \<and> cb_count (cbuf ex_stopping_sink) = 0 \<and>
   hackrf_tx_callback ex_sink [1, 2, 3, 4] 4 =
     Inr (0, [0, 0, 0, 0], ex_sink\<lparr>cerr := [Str ''U'']\<rparr>) \<and>
   hackrf_tx_callback ex_stopping_sink [1, 2, 3, 4] 4 =
     Inr (- 1, [0, 0, 0, 0], ex_stopping_sink\<lparr>notified := 1\<rparr>)"
  using callback_on_empty_ring [of ex_sink 4 "[1, 2, 3, 4]"]
    callback_on_empty_ring [of ex_stopping_sink 4 "[1, 2, 3, 4]"]
  by (simp add: ex_stopping_sink_def ex_sink_simps numeral_eq_Suc)

subsection \<open>The steps of stop\<close>

lemma stop_silence_loop_ok:
  assumes "cb_wf (cbuf s)" "cb_sz (cbuf s) \<le> length (buf s)" "i \<le> 5"
      and "cb_count (cbuf s) + (5 - i) \<le> cb_capacity (cbuf s)"
  shows "\<exists>cb'. stop_silence_loop s i = Inr (s\<lparr>cbuf := cb'\<rparr>) \<and> cb_wf cb' \<and>
           cb_contents cb' = cb_contents (cbuf s) @ replicate (5 - i) (take (cb_sz (cbuf s)) (buf s)) \<and>
           cb_count cb' = cb_count (cbuf s) + (5 - i) \<and> cb_sz cb' = cb_sz (cbuf s) \<and>
           cb_capacity cb' = cb_capacity (cbuf s)"
  using assms
proof (induction "5 - i" arbitrary: i s)
  case 0
  then have "i = 5" by simp
  then have "stop_silence_loop s i = Inr (s\<lparr>cbuf := cbuf s\<rparr>)"
    by (simp add: stop_silence_loop.simps)
  then show ?case using 0(2) \<open>i = 5\<close> by (intro exI [of _ "cbuf s"]) simp
next
  case (Suc n)
  then have i: "i < 5" by simp
  have room: "cb_count (cbuf s) < cb_capacity (cbuf s)" using Suc.prems(4) i by simp
  obtain cb1 where push: "cb_push_back (cbuf s) (buf s) = Inr (True, cb1)" and wf1: "cb_wf cb1"
    and c1: "cb_contents cb1 = cb_contents (cbuf s) @ [take (cb_sz (cbuf s)) (buf s)]"
    and r1: "cb_count cb1 = cb_count (cbuf s) + 1" "cb_sz cb1 = cb_sz (cbuf s)"
      "cb_capacity cb1 = cb_capacity (cbuf s)"
    using cb_push_ok [OF Suc.prems(1) room Suc.prems(2)] by blast
  have n: "n = 5 - (i + 1)" using Suc.hyps(2) by simp
  have "\<exists>cb'. stop_silence_loop (s\<lparr>cbuf := cb1\<rparr>) (i + 1) = Inr (s\<lparr>cbuf := cb1\<rparr>\<lparr>cbuf := cb'\<rparr>) \<and>
          cb_wf cb' \<and>
          cb_contents cb' = cb_contents (cbuf (s\<lparr>cbuf := cb1\<rparr>)) @
            replicate (5 - (i + 1)) (take (cb_sz (cbuf (s\<lparr>cbuf := cb1\<rparr>))) (buf (s\<lparr>cbuf := cb1\<rparr>))) \<and>
          cb_count cb' = cb_count (cbuf (s\<lparr>cbuf := cb1\<rparr>)) + (5 - (i + 1)) \<and>
          cb_sz cb' = cb_sz (cbuf (s\<lparr>cbuf := cb1\<rparr>)) \<and>
          cb_capacity cb' = cb_capacity (cbuf (s\<lparr>cbuf := cb1\<rparr>))"
    using wf1 r1 Suc.prems i by (intro Suc.hyps(1) [OF n]) simp_all
  then obtain cb' where rec: "stop_silence_loop (s\<lparr>cbuf := cb1\<rparr>) (i + 1) = Inr (s\<lparr>cbuf := cb'\<rparr>)"
    and wf': "cb_wf cb'"
    and c': "cb_contents cb' = cb_contents cb1 @ replicate (5 - (i + 1)) (take (cb_sz (cbuf s)) (buf s))"
    and r': "cb_count cb' = cb_count cb1 + (5 - (i + 1))" "cb_sz cb' = cb_sz cb1"
      "cb_capacity cb' = cb_capacity cb1"
    by (auto simp: r1)
  have "5 - i = Suc (5 - (i + 1))" using i by simp
  then have "cb_contents cb' = cb_contents (cbuf s) @ replicate (5 - i) (take (cb_sz (cbuf s)) (buf s))"
    by (simp add: c' c1)
  moreover have "stop_silence_loop s i = Inr (s\<lparr>cbuf := cb'\<rparr>)"
    using i room push rec
    by (subst stop_silence_loop.simps) (simp add: wait_for_room_def cb_has_room_def)
  ultimately show ?case using wf' r' r1 i by auto
qed

lemma stop_silence_loop_blocks:
  assumes "cb_wf (cbuf s)" "cb_sz (cbuf s) \<le> length (buf s)" "i \<le> 5"
      and "cb_capacity (cbuf s) < cb_count (cbuf s) + (5 - i)"
  shows "\<exists>sb. stop_silence_loop s i = Inl (Blocked sb) \<and> stopping sb = stopping s \<and>
           buf_used sb = buf_used s"
  using assms
proof (induction "5 - i" arbitrary: i s)
  case 0
  then have "cb_count (cbuf s) \<le> cb_capacity (cbuf s)" by (simp add: cb_wf_def)
  then show ?case using 0 by simp
next
  case (Suc n)
  then have i: "i < 5" by simp
  show ?case
  proof (cases "cb_count (cbuf s) = cb_capacity (cbuf s)")
    case True
    then show ?thesis
      using i by (subst stop_silence_loop.simps) (simp add: wait_for_room_def cb_has_room_def)
  next
    case False
    then have room: "cb_count (cbuf s) < cb_capacity (cbuf s)"
      using Suc.prems(1) by (simp add: cb_wf_def)
    obtain cb1 where push: "cb_push_back (cbuf s) (buf s) = Inr (True, cb1)" and wf1: "cb_wf cb1"
      and r1: "cb_count cb1 = cb_count (cbuf s) + 1" "cb_sz cb1 = cb_sz (cbuf s)"
        "cb_capacity cb1 = cb_capacity (cbuf s)"
      using cb_push_ok [OF Suc.prems(1) room Suc.prems(2)] by blast
    have n: "n = 5 - (i + 1)" using Suc.hyps(2) by simp
    have "\<exists>sb. stop_silence_loop (s\<lparr>cbuf := cb1\<rparr>) (i + 1) = Inl (Blocked sb) \<and>
            stopping sb = stopping (s\<lparr>cbuf := cb1\<rparr>) \<and> buf_used sb = buf_used (s\<lparr>cbuf := cb1\<rparr>)"
      using wf1 r1 Suc.prems i by (intro Suc.hyps(1) [OF n]) simp_all
    then show ?thesis
      using i False push
      by (subst stop_silence_loop.simps) (auto simp: wait_for_room_def cb_has_room_def)
  qed
qed


lemma stop_result:
  assumes "cfg_ok cfg" and "sink_inv cfg s" and "dev s = Some d"
  shows "if cb_count (cbuf s) + 6 \<le> cb_capacity (cbuf s)
         then (\<exists>s'. buf_used s' = 0 \<and> stopping s' \<and> sink_inv cfg s' \<and>
                 cb_contents (cbuf s') =
                   cb_contents (cbuf s) @
                   [take (buf_used s) (buf s) @ replicate (BUF_LEN cfg - buf_used s) 0] @
                   replicate 5 (replicate (BUF_LEN cfg) 0) \<and>
                 stop cfg s ret =
                   (if streaming d then Inl (Blocked s')
                    else if ret \<noteq> HACKRF_SUCCESS
                    then Inr (False, s'\<lparr>cerr := cerr s' @ [Str ''Failed to stop TX streaming ('',
                                                             Num ret, Str '')'', Endl]\<rparr>)
                    else Inr (True, s')))
         else (\<exists>sb. stop cfg s ret = Inl (Blocked sb) \<and> stopping sb = stopping s)"
proof -
  define L where "L = BUF_LEN cfg"
  define padded where "padded = take (buf_used s) (buf s) @ replicate (L - buf_used s) 0"
  define silence :: "int8_t list" where "silence = replicate L 0"
  have inv: "length (buf s) = L" "buf_used s < L" "cb_wf (cbuf s)" "cb_sz (cbuf s) = L"
    using assms(2) by (simp_all add: sink_inv_def L_def)
  have u: "usub32 L (buf_used s) = L - buf_used s"
    using assms(1) inv(2) by (intro usub32_eq) (simp_all add: cfg_ok_def L_def)
  have m1: "memset (buf s) (buf_used s) 0 (L - buf_used s) = Inr padded"
    using inv(1,2) by (simp add: memset_def write_at_def padded_def)
  have lp: "length padded = L" using inv(1,2) by (simp add: padded_def)
  have m2: "memset padded 0 0 L = Inr silence"
    using lp by (simp add: memset_def write_at_def silence_def)
  show ?thesis
  proof (cases "cb_count (cbuf s) = cb_capacity (cbuf s)")
    case True
    then show ?thesis
      using assms(3) by (simp add: stop_def wait_for_room_def cb_has_room_def)
  next
    case False
    then have room: "cb_count (cbuf s) < cb_capacity (cbuf s)" using inv(3) by (simp add: cb_wf_def)
    obtain cb1 where push: "cb_push_back (cbuf s) padded = Inr (True, cb1)" and wf1: "cb_wf cb1"
      and c1: "cb_contents cb1 = cb_contents (cbuf s) @ [padded]"
      and r1: "cb_count cb1 = cb_count (cbuf s) + 1" "cb_sz cb1 = L"
        "cb_capacity cb1 = cb_capacity (cbuf s)"
      using cb_push_ok [OF inv(3) room, of padded] inv(4) lp by auto
    define s1 where "s1 = s\<lparr>buf := silence, cbuf := cb1, buf_used := 0\<rparr>"
    have s1: "cb_wf (cbuf s1)" "cb_sz (cbuf s1) \<le> length (buf s1)" "(0::nat) \<le> 5"
      using wf1 r1 by (simp_all add: s1_def silence_def)
    have pre: "stop cfg s ret =
        (case stop_silence_loop s1 0 of
           Inl f \<Rightarrow> Inl f
         | Inr s2 \<Rightarrow>
             (let s3 = s2\<lparr>stopping := True\<rparr>
              in if streaming d then Inl (Blocked s3)
                 else if ret \<noteq> HACKRF_SUCCESS
                 then Inr (False, s3\<lparr>cerr := cerr s3 @ [Str ''Failed to stop TX streaming ('', Num ret,
                                                       Str '')'', Endl]\<rparr>)
                 else Inr (True, s3)))"
      using assms(3) False m1 m2 push
      by (simp add: stop_def wait_for_room_def cb_has_room_def u L_def [symmetric] s1_def)
    show ?thesis
    proof (cases "cb_count (cbuf s) + 6 \<le> cb_capacity (cbuf s)")
      case True
      then have "cb_count (cbuf s1) + (5 - 0) \<le> cb_capacity (cbuf s1)"
        using r1 by (simp add: s1_def)
      from stop_silence_loop_ok [OF s1 this]
      obtain cb2 where loop: "stop_silence_loop s1 0 = Inr (s1\<lparr>cbuf := cb2\<rparr>)" and wf2: "cb_wf cb2"
        and c2: "cb_contents cb2 = cb_contents cb1 @ replicate 5 silence"
        and r2: "cb_sz cb2 = L"
        using r1 by (auto simp: s1_def silence_def)
      define s' where "s' = s1\<lparr>cbuf := cb2, stopping := True\<rparr>"
      have "buf_used s' = 0" "stopping s'" by (simp_all add: s'_def s1_def)
      moreover have "sink_inv cfg s'"
        using wf2 r2 assms(1) by (simp add: sink_inv_def s'_def s1_def silence_def L_def cfg_ok_def)
      moreover have "cb_contents (cbuf s') = cb_contents (cbuf s) @ [padded] @ replicate 5 silence"
        by (simp add: s'_def c2 c1)
      moreover have "stop cfg s ret =
                   (if streaming d then Inl (Blocked s')
                    else if ret \<noteq> HACKRF_SUCCESS
                    then Inr (False, s'\<lparr>cerr := cerr s' @ [Str ''Failed to stop TX streaming ('',
                                                             Num ret, Str '')'', Endl]\<rparr>)
                    else Inr (True, s'))"
        unfolding pre loop by (simp add: s'_def)
      ultimately show ?thesis
        using True unfolding padded_def silence_def L_def by (simp only: if_True) blast
    next
      case nr: False
      then have "cb_capacity (cbuf s1) < cb_count (cbuf s1) + (5 - 0)"
        using r1 by (simp add: s1_def)
      from stop_silence_loop_blocks [OF s1 this]
      obtain sb where "stop_silence_loop s1 0 = Inl (Blocked sb)" "stopping sb = stopping s"
        by (auto simp: s1_def)
      then show ?thesis using nr unfolding pre by simp
    qed
  qed
qed

lemma ex_sink7_simps:
  "buf ex_sink7 = [9, 9, 9, 9]" "buf_used ex_sink7 = 2" "stopping ex_sink7 = False"
  "cbuf ex_sink7 = \<lparr>cb_buffer = replicate 28 9, cb_buffer_end = 28, cb_capacity = 7, cb_count = 0,
                   cb_sz = 4, cb_head = 0, cb_tail = 0\<rparr>"
  "dev ex_sink7 = Some \<lparr>streaming = False\<rparr>" "notified ex_sink7 = 0"
  by (simp_all add: ex_sink7_def new_hackrf_sink_c_def ex_cfg_def cb_init_def)

lemma ex_sink7_ok: "sink_inv ex_cfg ex_sink7" "sink_inv ex_cfg ex_streaming_sink7"
  by (simp_all add: sink_inv_def ex_streaming_sink7_def ex_sink7_simps cb_wf_def ex_cfg_def)

subsection \<open>stop\<close>

text \<open>
  C5. With a device attached, \<^verbatim>\<open>stop()\<close> pads the staging buffer with zeroes to its full
  length and pushes it, pushes five buffers of silence, sets the stopping flag and then
  waits for the device to stop streaming. When the ring has six free slots: if the device
  is not streaming the call completes with the fill counter 0, the flag set and the ring
  holding what it held, then the padded buffer, then the five silent ones; if the device
  is streaming the call waits in exactly that state, buffers queued and flag set. When the
  ring has fewer than six free slots the call waits for room with the flag not yet
  touched.
\<close>

theorem stop_sequence:
  assumes "cfg_ok cfg" and "sink_inv cfg s" and "dev s = Some d"
  shows "if cb_count (cbuf s) + 6 \<le> cb_capacity (cbuf s)
         then (\<exists>s'. buf_used s' = 0 \<and> stopping s' \<and> sink_inv cfg s' \<and>
                 cb_contents (cbuf s') =
                   cb_contents (cbuf s) @
                   [take (buf_used s) (buf s) @ replicate (BUF_LEN cfg - buf_used s) 0] @
                   replicate 5 (replicate (BUF_LEN cfg) 0) \<and>
                 stop cfg s ret =
                   (if streaming d then Inl (Blocked s')
                    else if ret \<noteq> HACKRF_SUCCESS
                    then Inr (False, s'\<lparr>cerr := cerr s' @ [Str ''Failed to stop TX streaming ('',
                                                             Num ret, Str '')'', Endl]\<rparr>)
                    else Inr (True, s')))
         else (\<exists>sb. stop cfg s ret = Inl (Blocked sb) \<and> stopping sb = stopping s)"
  using assms by (rule stop_result)

theorem stop_sequence_witness:
  "cfg_ok ex_cfg \<and> sink_inv ex_cfg ex_sink7 \<and> dev ex_sink7 = Some \<lparr>streaming = False\<rparr> \<and>
   (\<exists>s'. stop ex_cfg ex_sink7 0 = Inr (True, s') \<and> buf_used s' = 0 \<and> stopping s' \<and>
      cb_contents (cbuf s') = [[9, 9, 0, 0], [0, 0, 0, 0], [0, 0, 0, 0], [0, 0, 0, 0],
                               [0, 0, 0, 0], [0, 0, 0, 0]]) \<and>
   (\<exists>s'. stop ex_cfg ex_streaming_sink7 0 = Inl (Blocked s') \<and> stopping s') \<and>
   (\<exists>sb. stop ex_cfg ex_sink 0 = Inl (Blocked sb) \<and> \<not> stopping sb)"
proof -
  have e: "cb_contents (cbuf ex_sink7) = []" "cb_count (cbuf ex_sink7) = 0"
    "cb_capacity (cbuf ex_sink7) = 7" "cb_count (cbuf ex_sink) = 0" "cb_capacity (cbuf ex_sink) = 2"
    "BUF_LEN ex_cfg = 4"
    by (simp_all add: cb_contents_def ex_sink7_simps ex_sink_simps ex_cfg_def)
  have r: "replicate 5 (replicate 4 (0::int8_t)) =
           [[0, 0, 0, 0], [0, 0, 0, 0], [0, 0, 0, 0], [0, 0, 0, 0], [0, 0, 0, 0]]"
    "replicate 2 (0::int8_t) = [0, 0]"
    by (simp_all add: numeral_eq_Suc)
  have "\<exists>s'. stop ex_cfg ex_sink7 0 = Inr (True, s') \<and> buf_used s' = 0 \<and> stopping s' \<and>
      cb_contents (cbuf s') = [[9, 9, 0, 0], [0, 0, 0, 0], [0, 0, 0, 0], [0, 0, 0, 0],
                               [0, 0, 0, 0], [0, 0, 0, 0]]"
    using stop_sequence [OF ex_ok(1) ex_sink7_ok(1) ex_sink7_simps(5), of 0]
    by (simp add: ex_sink7_simps(1,2) e r HACKRF_SUCCESS_def) blast
  moreover have "\<exists>s'. stop ex_cfg ex_streaming_sink7 0 = Inl (Blocked s') \<and> stopping s'"
    using stop_sequence [OF ex_ok(1) ex_sink7_ok(2), of "\<lparr>streaming = True\<rparr>" 0]
    by (simp add: ex_streaming_sink7_def e) blast
  moreover have "\<exists>sb. stop ex_cfg ex_sink 0 = Inl (Blocked sb) \<and> \<not> stopping sb"
    using stop_sequence [OF ex_ok(1,2) ex_sink_simps(5), of 0]
    by (simp add: e ex_sink_simps(3))
  ultimately show ?thesis using ex_ok(1) ex_sink7_ok(1) ex_sink7_simps(5) by blast
qed

subsection \<open>Every operation keeps the sink well-formed\<close>

lemma work_body_result:
  assumes "cfg_ok cfg" "sink_inv cfg s" "work_body cfg s n input = Inr (c, s1)"
  shows "sink_inv cfg s1 \<and>
         (if (BUF_LEN cfg - buf_used s) div 2 \<le> n
          then (if cb_count (cbuf s) = cb_capacity (cbuf s)
                then c = 0 \<and> buf_used s1 = buf_used s \<and> cbuf s1 = cbuf s
                else c = (BUF_LEN cfg - buf_used s) div 2 \<and> buf_used s1 = 0 \<and>
                     cb_contents (cbuf s1) = cb_contents (cbuf s) @ [buf s1] \<and>
                     cb_count (cbuf s1) = cb_count (cbuf s) + 1 \<and>
                     cb_capacity (cbuf s1) = cb_capacity (cbuf s))
          else c = n \<and> buf_used s1 = buf_used s + 2 * n \<and> cbuf s1 = cbuf s)"
proof -
  define r where "r = (BUF_LEN cfg - buf_used s) div 2"
  define k where "k = min n r"
  have u: "usub32 (BUF_LEN cfg) (buf_used s) = BUF_LEN cfg - buf_used s"
    using assms(1,2) by (intro usub32_eq) (simp_all add: cfg_ok_def sink_inv_def)
  have inv: "length (buf s) = BUF_LEN cfg" "buf_used s < BUF_LEN cfg" "even (buf_used s)"
    "cb_wf (cbuf s)" "cb_sz (cbuf s) = BUF_LEN cfg"
    using assms(2) by (simp_all add: sink_inv_def)
  have dm: "(k div 8 * 8 + k mod 8) * 2 = 2 * k" "k div 8 * 8 + k mod 8 = k" by simp_all
  obtain b where conv: "work_convert cfg (floats_of input) (buf s) (buf_used s) k = Inr b"
    using assms(3) unfolding work_body_def u Let_def r_def [symmetric] k_def [symmetric]
    by (cases "work_convert cfg (floats_of input) (buf s) (buf_used s) k") simp_all
  have lb: "length b = BUF_LEN cfg" using work_convert_length [OF conv] inv(1) by simp
  have full: "buf_used s + 2 * r = BUF_LEN cfg" "0 < r"
    unfolding r_def using assms(1,2) by (rule staging_full)+
  have wb: "work_body cfg s n input =
            (if r \<le> n then
               (case cb_push_back (cbuf s) b of
                  Inl f \<Rightarrow> Inl f
                | Inr (pushed, cb) \<Rightarrow>
                    if \<not> pushed
                    then Inr (0, s\<lparr>buf := b, buf_used := buf_used s, cbuf := cb,
                                   cerr := cerr s @ [Str ''O'']\<rparr>)
                    else Inr (k, s\<lparr>buf := b, buf_used := 0, cbuf := cb\<rparr>))
             else Inr (k, s\<lparr>buf := b, buf_used := buf_used s + 2 * k\<rparr>))"
    unfolding work_body_def u Let_def r_def [symmetric] k_def [symmetric] conv
    by (simp add: mult.commute split: sum.splits prod.splits)
  show ?thesis
  proof (cases "r \<le> n")
    case True
    then have kr: "k = r" by (simp add: k_def)
    show ?thesis
    proof (cases "cb_count (cbuf s) = cb_capacity (cbuf s)")
      case full_ring: True
      then have "cb_push_back (cbuf s) b = Inr (False, cbuf s)" by (simp add: cb_push_back_def)
      then have "c = 0" "s1 = s\<lparr>buf := b, buf_used := buf_used s, cbuf := cbuf s,
                                   cerr := cerr s @ [Str ''O'']\<rparr>"
        using assms(3) True unfolding wb by simp_all
      then show ?thesis
        using True full_ring inv lb by (simp add: sink_inv_def r_def)
    next
      case False
      then have room: "cb_count (cbuf s) < cb_capacity (cbuf s)" using inv(4) by (simp add: cb_wf_def)
      obtain cb' where push: "cb_push_back (cbuf s) b = Inr (True, cb')" and wf: "cb_wf cb'"
        and cont: "cb_contents cb' = cb_contents (cbuf s) @ [b]"
        and rest: "cb_count cb' = cb_count (cbuf s) + 1" "cb_sz cb' = BUF_LEN cfg"
          "cb_capacity cb' = cb_capacity (cbuf s)"
        using cb_push_ok [OF inv(4) room, of b] inv(5) lb by auto
      have "c = r" "s1 = s\<lparr>buf := b, buf_used := 0, cbuf := cb'\<rparr>"
        using assms(3) True push kr unfolding wb by simp_all
      then show ?thesis
        using True False wf cont rest lb assms(1) by (simp add: sink_inv_def r_def cfg_ok_def)
    qed
  next
    case False
    then have kn: "k = n" by (simp add: k_def)
    have "c = n" "s1 = s\<lparr>buf := b, buf_used := buf_used s + 2 * n\<rparr>"
      using assms(3) False kn unfolding wb by auto
    moreover have "buf_used s + 2 * n < BUF_LEN cfg" using False full(1) by simp
    ultimately show ?thesis
      using False inv lb by (simp add: sink_inv_def r_def)
  qed
qed

lemma callback_inv:
  assumes "sink_inv cfg s" "hackrf_tx_callback s buffer len = Inr (status, buffer', s2)"
  shows "sink_inv cfg s2 \<and> buf_used s2 = buf_used s \<and> buf s2 = buf s"
proof (cases "cb_count (cbuf s) = 0")
  case True
  then show ?thesis
    using assms
    by (auto simp: hackrf_tx_callback_def cb_pop_front_def sink_inv_def
        split: sum.splits if_splits)
next
  case False
  have wf: "cb_wf (cbuf s)" "cb_sz (cbuf s) = BUF_LEN cfg" using assms(1) by (simp_all add: sink_inv_def)
  have "cb_sz (cbuf s) \<le> length buffer"
    using assms(2) False
    by (auto simp: hackrf_tx_callback_def cb_pop_front_def memcpy_def split: sum.splits if_splits)
  from cb_pop_ok [OF wf(1) _ this] False
  obtain cb' where "cb_pop_front (cbuf s) buffer = Inr (True, write_at buffer 0 (hd (cb_contents (cbuf s))), cb')"
    "cb_wf cb'" "cb_sz cb' = cb_sz (cbuf s)"
    by auto
  then show ?thesis
    using assms wf by (auto simp: hackrf_tx_callback_def sink_inv_def)
qed

lemma start_inv:
  assumes "cfg_ok cfg" "sink_inv cfg s" "start s ret = (ok, s3)"
  shows "sink_inv cfg s3 \<and> (dev s \<noteq> None \<longrightarrow> buf_used s3 = 0 \<and> \<not> stopping s3)"
  using assms
  by (auto simp: start_def sink_inv_def cfg_ok_def Let_def split: option.splits if_splits)

lemma stop_inv:
  assumes "cfg_ok cfg" "sink_inv cfg s" "stop cfg s ret = Inr (ok, s4)"
  shows "sink_inv cfg s4 \<and> (dev s \<noteq> None \<longrightarrow> buf_used s4 = 0 \<and> stopping s4)"
proof (cases "dev s")
  case None
  then show ?thesis using assms by (simp add: stop_def)
next
  case (Some d)
  show ?thesis
    using stop_result [OF assms(1,2) Some, of ret] assms(3) Some
    by (auto simp: sink_inv_def split: if_splits)
qed

lemma ex_callback:
  "hackrf_tx_callback ex_sink [1, 2, 3, 4] 4 = Inr (0, [0, 0, 0, 0], ex_sink\<lparr>cerr := [Str ''U'']\<rparr>)"
  by (simp add: hackrf_tx_callback_def cb_pop_front_def memset_def write_at_def ex_sink_simps
      numeral_eq_Suc)

lemma ex_start:
  "start ex_sink 0 = (True, ex_sink\<lparr>stopping := False, buf_used := 0,
                                    dev := Some \<lparr>streaming = True\<rparr>\<rparr>)"
  by (simp add: start_def ex_sink_simps HACKRF_SUCCESS_def Let_def)

lemma ex_stop: "\<exists>s'. stop ex_cfg ex_sink7 0 = Inr (True, s')"
proof -
  have "cb_count (cbuf ex_sink7) + 6 \<le> cb_capacity (cbuf ex_sink7)"
    by (simp add: ex_sink7_simps)
  then show ?thesis
    using stop_result [OF ex_ok(1) ex_sink7_ok(1) ex_sink7_simps(5), of 0]
    by (simp add: HACKRF_SUCCESS_def) blast
qed

lemma ex_work:
  "\<exists>s'. work ex_cfg ex_sink 2 [(Finite 1 (- 1), Finite 1 0), (Finite 0 0, Finite (- 1) 0)] = Inr (2, s')"
  "\<exists>s'. work ex_cfg ex_sink 1 [(Finite 1 (- 1), Finite 1 0)] = Inr (1, s')"
  using work_returns [OF ex_ok, of 2 "[(Finite 1 (- 1), Finite 1 0), (Finite 0 0, Finite (- 1) 0)]"]
    work_returns [OF ex_ok, of 1 "[(Finite 1 (- 1), Finite 1 0)]"]
  by (simp_all add: nominal_sample_def nominal_examples ex_sink_simps ex_cfg_def)

subsection \<open>The staging-buffer invariant\<close>

text \<open>
  C10. Every operation that returns leaves a well-formed sink: the staging buffer has
  \<^verbatim>\<open>BUF_LEN\<close> bytes and its fill counter is even and below \<^verbatim>\<open>BUF_LEN\<close>. For
  \<^verbatim>\<open>work\<close>: when the samples it consumed fill the staging buffer completely, the buffer
  has been pushed onto the ring and the counter is 0; otherwise the counter has advanced
  by two bytes per sample and the ring is untouched. The callback does not touch the
  counter; \<^verbatim>\<open>start\<close> and \<^verbatim>\<open>stop\<close> leave it below \<^verbatim>\<open>BUF_LEN\<close> (at 0 when a device
  is attached).
\<close>

theorem staging_invariant_preserved:
  assumes "cfg_ok cfg" and "sink_inv cfg s"
  shows "(work cfg s n input = Inr (c, s_work) \<longrightarrow>
            sink_inv cfg s_work \<and> buf_used s_work < BUF_LEN cfg \<and>
            (if buf_used s + 2 * c = BUF_LEN cfg
             then buf_used s_work = 0 \<and> cb_contents (cbuf s_work) = cb_contents (cbuf s) @ [buf s_work]
             else buf_used s_work = buf_used s + 2 * c \<and> cbuf s_work = cbuf s)) \<and>
         (hackrf_tx_callback s buffer len = Inr (status, buffer', s_cb) \<longrightarrow>
            sink_inv cfg s_cb \<and> buf_used s_cb = buf_used s) \<and>
         (start s ret = (ok, s_start) \<longrightarrow> sink_inv cfg s_start \<and> buf_used s_start < BUF_LEN cfg) \<and>
         (stop cfg s ret_stop = Inr (ok_stop, s_stop) \<longrightarrow> sink_inv cfg s_stop \<and> buf_used s_stop < BUF_LEN cfg)"
proof -
  have full: "buf_used s + 2 * ((BUF_LEN cfg - buf_used s) div 2) = BUF_LEN cfg"
    using assms by (rule staging_full)
  have w: "sink_inv cfg s_work \<and> buf_used s_work < BUF_LEN cfg \<and>
            (if buf_used s + 2 * c = BUF_LEN cfg
             then buf_used s_work = 0 \<and> cb_contents (cbuf s_work) = cb_contents (cbuf s) @ [buf s_work]
             else buf_used s_work = buf_used s + 2 * c \<and> cbuf s_work = cbuf s)"
    if "work cfg s n input = Inr (c, s_work)"
  proof -
    have room: "cb_count (cbuf s) \<noteq> cb_capacity (cbuf s)" and wb: "work_body cfg s n input = Inr (c, s_work)"
      using that by (auto simp: work_def wait_for_room_def cb_has_room_def split: if_splits)
    show ?thesis
    proof (cases "(BUF_LEN cfg - buf_used s) div 2 \<le> n")
      case True
      then show ?thesis
        using work_body_result [OF assms wb] room full assms(2) by (simp add: sink_inv_def)
    next
      case False
      then have "buf_used s + 2 * n < BUF_LEN cfg" using full by simp
      then show ?thesis
        using work_body_result [OF assms wb] False assms(2) by (simp add: sink_inv_def)
    qed
  qed
  have used: "buf_used x < BUF_LEN cfg" if "sink_inv cfg x" for x
    using that by (simp add: sink_inv_def)
  have 1: "work cfg s n input = Inr (c, s_work) \<longrightarrow>
            sink_inv cfg s_work \<and> buf_used s_work < BUF_LEN cfg \<and>
            (if buf_used s + 2 * c = BUF_LEN cfg
             then buf_used s_work = 0 \<and> cb_contents (cbuf s_work) = cb_contents (cbuf s) @ [buf s_work]
             else buf_used s_work = buf_used s + 2 * c \<and> cbuf s_work = cbuf s)"
    using w by blast
  have 2: "hackrf_tx_callback s buffer len = Inr (status, buffer', s_cb) \<longrightarrow>
            sink_inv cfg s_cb \<and> buf_used s_cb = buf_used s"
    using callback_inv [OF assms(2)] by blast
  have 3: "start s ret = (ok, s_start) \<longrightarrow> sink_inv cfg s_start \<and> buf_used s_start < BUF_LEN cfg"
    using start_inv [OF assms] used by blast
  have 4: "stop cfg s ret_stop = Inr (ok_stop, s_stop) \<longrightarrow> sink_inv cfg s_stop \<and> buf_used s_stop < BUF_LEN cfg"
    using stop_inv [OF assms] used by blast
  from 1 2 3 4 show ?thesis by blast
qed

theorem staging_invariant_preserved_witness:
  "cfg_ok ex_cfg \<and> sink_inv ex_cfg ex_sink \<and>
   (\<exists>s'. work ex_cfg ex_sink 2 [(Finite 1 (- 1), Finite 1 0), (Finite 0 0, Finite (- 1) 0)] = Inr (2, s') \<and>
         sink_inv ex_cfg s' \<and> buf_used s' = 0 \<and> cb_contents (cbuf s') = [buf s']) \<and>
   (\<exists>s'. work ex_cfg ex_sink 1 [(Finite 1 (- 1), Finite 1 0)] = Inr (1, s') \<and>
         sink_inv ex_cfg s' \<and> buf_used s' = 2 \<and> cbuf s' = cbuf ex_sink) \<and>
   sink_inv ex_cfg (ex_sink\<lparr>cerr := [Str ''U'']\<rparr>) \<and>
   sink_inv ex_cfg (ex_sink\<lparr>stopping := False, buf_used := 0, dev := Some \<lparr>streaming = True\<rparr>\<rparr>) \<and>
   (\<exists>s'. stop ex_cfg ex_sink7 0 = Inr (True, s') \<and> sink_inv ex_cfg s' \<and> buf_used s' < 4)"
proof -
  have e: "cb_contents (cbuf ex_sink) = []" "BUF_LEN ex_cfg = 4"
    by (simp_all add: cb_contents_def ex_sink_simps ex_cfg_def)
  obtain sa where a: "work ex_cfg ex_sink 2 [(Finite 1 (- 1), Finite 1 0), (Finite 0 0, Finite (- 1) 0)] = Inr (2, sa)"
    using ex_work(1) by blast
  have 1: "sink_inv ex_cfg sa \<and> buf_used sa = 0 \<and> cb_contents (cbuf sa) = [buf sa]"
    using staging_invariant_preserved [OF ex_ok(1,2), where n = 2 and c = 2 and s_work = sa
        and input = "[(Finite 1 (- 1), Finite 1 0), (Finite 0 0, Finite (- 1) 0)]"] a
    by (simp add: ex_sink_simps(2) e)
  obtain sb where b: "work ex_cfg ex_sink 1 [(Finite 1 (- 1), Finite 1 0)] = Inr (1, sb)"
    using ex_work(2) by blast
  have 2: "sink_inv ex_cfg sb \<and> buf_used sb = 2 \<and> cbuf sb = cbuf ex_sink"
    using staging_invariant_preserved [OF ex_ok(1,2), where n = 1 and c = 1 and s_work = sb
        and input = "[(Finite 1 (- 1), Finite 1 0)]"] b
    by (simp add: ex_sink_simps(2) e)
  have 3: "sink_inv ex_cfg (ex_sink\<lparr>cerr := [Str ''U'']\<rparr>)"
    using staging_invariant_preserved [OF ex_ok(1,2), where buffer = "[1, 2, 3, 4]" and len = 4
        and status = 0 and buffer' = "[0, 0, 0, 0]" and s_cb = "ex_sink\<lparr>cerr := [Str ''U'']\<rparr>"]
      ex_callback
    by simp
  have 4: "sink_inv ex_cfg (ex_sink\<lparr>stopping := False, buf_used := 0, dev := Some \<lparr>streaming = True\<rparr>\<rparr>)"
    using staging_invariant_preserved [OF ex_ok(1,2), where ret = 0 and ok = True
        and s_start = "ex_sink\<lparr>stopping := False, buf_used := 0, dev := Some \<lparr>streaming = True\<rparr>\<rparr>"]
      ex_start
    by simp
  obtain sc where c: "stop ex_cfg ex_sink7 0 = Inr (True, sc)" using ex_stop by blast
  have 5: "sink_inv ex_cfg sc \<and> buf_used sc < 4"
    using staging_invariant_preserved [OF ex_ok(1) ex_sink7_ok(1), where ret_stop = 0
        and ok_stop = True and s_stop = sc] c
    by (simp add: e)
  from a 1 b 2 3 4 c 5 ex_ok(1,2) show ?thesis by blast
qed

subsection \<open>Runs of calls keep the byte stream\<close>

lemma chunks_concat:
  assumes "0 < n" "\<forall>b \<in> set bs. length b = n"
  shows "chunks n (concat bs) = bs"
  using assms(2)
proof (induction bs)
  case Nil
  then show ?case by (simp add: chunks.simps)
next
  case (Cons b bs)
  then have "b \<noteq> []" "length b = n" using assms(1) by auto
  then show ?case using Cons assms(1) by (subst chunks.simps) simp
qed

lemma length_concat_blocks:
  "\<forall>b \<in> set bs. length b = n \<Longrightarrow> length (concat bs) = length bs * n"
  by (induction bs) simp_all

lemma work_step:
  assumes "cfg_ok cfg" "sink_inv cfg s" "n \<le> length input"
      and "\<forall>x \<in> set input. nominal_sample x"
      and "work cfg s n input = Inr (c, s1)"
  shows "sink_inv cfg s1 \<and> c \<le> length input \<and>
         cb_capacity (cbuf s1) = cb_capacity (cbuf s) \<and>
         (\<exists>new. cb_contents (cbuf s1) = cb_contents (cbuf s) @ new \<and> length new \<le> 1 \<and>
                concat new @ take (buf_used s1) (buf s1) =
                take (buf_used s) (buf s) @ converted cfg (take c input))"
proof -
  have room: "cb_count (cbuf s) \<noteq> cb_capacity (cbuf s)" and wb: "work_body cfg s n input = Inr (c, s1)"
    using assms(5) by (auto simp: work_def wait_for_room_def cb_has_room_def split: if_splits)
  have inv: "length (buf s) = BUF_LEN cfg" "buf_used s < BUF_LEN cfg" "cb_wf (cbuf s)"
    using assms(2) by (simp_all add: sink_inv_def)
  have inv1: "sink_inv cfg s1" using work_body_result [OF assms(1,2) wb] by simp
  show ?thesis
  proof (cases "n < (BUF_LEN cfg - buf_used s) div 2")
    case True
    have full: "buf_used s + 2 * ((BUF_LEN cfg - buf_used s) div 2) = BUF_LEN cfg"
      using assms(1,2) by (rule staging_full)
    have e: "c = n" "s1 = s\<lparr>buf := write_at (buf s) (buf_used s) (converted cfg (take n input)),
                              buf_used := buf_used s + 2 * n\<rparr>"
      using wb work_body_partial [OF assms(1-4) True] by auto
    have lB: "length (converted cfg (take n input)) = 2 * n"
      using assms(3) by (simp add: length_converted)
    have "take (buf_used s + 2 * n) (write_at (buf s) (buf_used s) (converted cfg (take n input))) =
          take (buf_used s) (buf s) @ converted cfg (take n input)"
      using inv(1,2) lB by (simp add: write_at_def)
    then have "cb_contents (cbuf s1) = cb_contents (cbuf s) @ [] \<and> length ([]::int8_t list list) \<le> 1 \<and>
               concat [] @ take (buf_used s1) (buf s1) =
               take (buf_used s) (buf s) @ converted cfg (take c input)"
      by (simp add: e)
    then show ?thesis using inv1 e(1) assms(3) by (auto simp: e(2))
  next
    case False
    then have r: "(BUF_LEN cfg - buf_used s) div 2 \<le> n" by simp
    have lt: "cb_count (cbuf s) < cb_capacity (cbuf s)" using room inv(3) by (simp add: cb_wf_def)
    obtain cb' where w: "work_body cfg s n input =
           Inr ((BUF_LEN cfg - buf_used s) div 2,
                s\<lparr>buf := take (buf_used s) (buf s) @
                            converted cfg (take ((BUF_LEN cfg - buf_used s) div 2) input),
                  buf_used := 0, cbuf := cb'\<rparr>)"
      and cont: "cb_contents cb' = cb_contents (cbuf s) @
             [take (buf_used s) (buf s) @ converted cfg (take ((BUF_LEN cfg - buf_used s) div 2) input)]"
      and cap: "cb_capacity cb' = cb_capacity (cbuf s)"
      using work_body_push [OF assms(1-4) r lt] by blast
    have e: "c = (BUF_LEN cfg - buf_used s) div 2"
      "s1 = s\<lparr>buf := take (buf_used s) (buf s) @ converted cfg (take c input),
              buf_used := 0, cbuf := cb'\<rparr>"
      using wb w by auto
    have "cb_contents (cbuf s1) = cb_contents (cbuf s) @
             [take (buf_used s) (buf s) @ converted cfg (take c input)] \<and>
          length [take (buf_used s) (buf s) @ converted cfg (take c input)] \<le> 1 \<and>
          concat [take (buf_used s) (buf s) @ converted cfg (take c input)] @
            take (buf_used s1) (buf s1) =
          take (buf_used s) (buf s) @ converted cfg (take c input)"
      using cont by (simp add: e)
    then have "\<exists>new. cb_contents (cbuf s1) = cb_contents (cbuf s) @ new \<and> length new \<le> 1 \<and>
                concat new @ take (buf_used s1) (buf s1) =
                take (buf_used s) (buf s) @ converted cfg (take c input)"
      by blast
    moreover have "c \<le> length input" using e(1) r assms(3) by simp
    moreover have "cb_capacity (cbuf s1) = cb_capacity (cbuf s)" using cap by (simp add: e(2))
    ultimately show ?thesis using inv1 by blast
  qed
qed

lemma work_seq_stream:
  assumes "cfg_ok cfg" "sink_inv cfg s"
      and "\<forall>(n, input) \<in> set calls. n \<le> length input \<and> (\<forall>x \<in> set input. nominal_sample x)"
      and "work_seq cfg s calls = Inr (cs, s')"
  shows "sink_inv cfg s' \<and> length (converted_calls cfg calls cs) = 2 * sum_list cs \<and>
         (\<exists>new. cb_contents (cbuf s') = cb_contents (cbuf s) @ new \<and>
                concat new @ take (buf_used s') (buf s') =
                take (buf_used s) (buf s) @ converted_calls cfg calls cs)"
  using assms(2-4)
proof (induction calls arbitrary: s cs)
  case Nil
  then show ?case by (simp add: converted_calls_def)
next
  case (Cons call calls)
  obtain n input where call: "call = (n, input)" by (cases call)
  have valid: "n \<le> length input" "\<forall>x \<in> set input. nominal_sample x"
    using Cons.prems(2) by (auto simp: call)
  obtain c s1 cs1 where w: "work cfg s n input = Inr (c, s1)"
    and rest: "work_seq cfg s1 calls = Inr (cs1, s')" and cs: "cs = c # cs1"
    using Cons.prems(3) by (auto simp: call split: sum.splits)
  from work_step [OF assms(1) Cons.prems(1) valid w]
  obtain new1 where inv1: "sink_inv cfg s1" and c: "c \<le> length input"
    and n1: "cb_contents (cbuf s1) = cb_contents (cbuf s) @ new1"
    and st1: "concat new1 @ take (buf_used s1) (buf s1) =
                take (buf_used s) (buf s) @ converted cfg (take c input)"
    by blast
  have v: "\<forall>(n, input) \<in> set calls. n \<le> length input \<and> (\<forall>x \<in> set input. nominal_sample x)"
    using Cons.prems(2) by simp
  from Cons.IH [OF inv1 v rest]
  obtain new2 where inv': "sink_inv cfg s'"
    and len: "length (converted_calls cfg calls cs1) = 2 * sum_list cs1"
    and n2: "cb_contents (cbuf s') = cb_contents (cbuf s1) @ new2"
    and st2: "concat new2 @ take (buf_used s') (buf s') =
                take (buf_used s1) (buf s1) @ converted_calls cfg calls cs1"
    by blast
  have cc: "converted_calls cfg (call # calls) cs =
            converted cfg (take c input) @ converted_calls cfg calls cs1"
    by (simp add: converted_calls_def call cs)
  have "length (converted_calls cfg (call # calls) cs) = 2 * sum_list cs"
    unfolding cc using len c by (simp add: cs length_converted)
  moreover have "cb_contents (cbuf s') = cb_contents (cbuf s) @ (new1 @ new2)"
    by (simp add: n2 n1)
  moreover have "concat (new1 @ new2) @ take (buf_used s') (buf s') =
                 take (buf_used s) (buf s) @ converted_calls cfg (call # calls) cs"
    using st1 st2 by (simp add: cc)
  ultimately show ?case using inv' by blast
qed

lemma work_seq_returns:
  assumes "cfg_ok cfg" "sink_inv cfg s"
      and "\<forall>(n, input) \<in> set calls. n \<le> length input \<and> (\<forall>x \<in> set input. nominal_sample x)"
      and "cb_count (cbuf s) + length calls \<le> cb_capacity (cbuf s)"
  shows "\<exists>cs s'. work_seq cfg s calls = Inr (cs, s')"
  using assms(2-4)
proof (induction calls arbitrary: s)
  case Nil
  then show ?case by simp
next
  case (Cons call calls)
  obtain n input where call: "call = (n, input)" by (cases call)
  have valid: "n \<le> length input" "\<forall>x \<in> set input. nominal_sample x"
    using Cons.prems(2) by (auto simp: call)
  have room: "cb_has_room (cbuf s)" using Cons.prems(3) by (simp add: cb_has_room_def)
  obtain s1 where w: "work cfg s n input = Inr (min n ((BUF_LEN cfg - buf_used s) div 2), s1)"
    using work_returns [OF assms(1) Cons.prems(1) room valid] by blast
  from work_step [OF assms(1) Cons.prems(1) valid w]
  obtain new1 where inv1: "sink_inv cfg s1"
    and cap: "cb_capacity (cbuf s1) = cb_capacity (cbuf s)"
    and n1: "cb_contents (cbuf s1) = cb_contents (cbuf s) @ new1" and l1: "length new1 \<le> 1"
    by blast
  have "cb_count (cbuf s1) = cb_count (cbuf s) + length new1"
    using n1 length_cb_contents [of "cbuf s1"] length_cb_contents [of "cbuf s"] by simp
  then have "cb_count (cbuf s1) + length calls \<le> cb_capacity (cbuf s1)"
    using Cons.prems(3) l1 cap by simp
  moreover have "\<forall>(n, input) \<in> set calls. n \<le> length input \<and> (\<forall>x \<in> set input. nominal_sample x)"
    using Cons.prems(2) by simp
  ultimately obtain cs s' where "work_seq cfg s1 calls = Inr (cs, s')"
    using Cons.IH [OF inv1] by blast
  then show ?case using w by (simp add: call)
qed

lemma drain_ok:
  assumes "sink_inv cfg s" "k \<le> cb_count (cbuf s)"
  shows "\<exists>s'. drain s (BUF_LEN cfg) k = Inr (take k (cb_contents (cbuf s)), s') \<and>
              sink_inv cfg s' \<and> cb_contents (cbuf s') = drop k (cb_contents (cbuf s)) \<and>
              buf_used s' = buf_used s"
  using assms
proof (induction k arbitrary: s)
  case 0
  then show ?case by simp
next
  case (Suc k)
  define L where "L = BUF_LEN cfg"
  have inv: "cb_wf (cbuf s)" "cb_sz (cbuf s) = L" using Suc.prems(1) by (simp_all add: sink_inv_def L_def)
  have pos: "0 < cb_count (cbuf s)" using Suc.prems(2) by simp
  then have ne: "cb_contents (cbuf s) \<noteq> []"
    using length_cb_contents [of "cbuf s"] by auto
  then have "hd (cb_contents (cbuf s)) \<in> set (cb_contents (cbuf s))" by simp
  then have lh: "length (hd (cb_contents (cbuf s))) = L"
    using length_cb_slots [OF inv(1)] inv(2) by simp
  obtain cb' where pop: "cb_pop_front (cbuf s) (replicate L 0) =
      Inr (True, write_at (replicate L 0) 0 (hd (cb_contents (cbuf s))), cb')"
    and wf': "cb_wf cb'" and c': "cb_contents cb' = tl (cb_contents (cbuf s))"
    and r': "cb_count cb' = cb_count (cbuf s) - 1" "cb_sz cb' = cb_sz (cbuf s)"
    using cb_pop_ok [OF inv(1) pos, of "replicate L 0"] inv(2) by auto
  have wr: "write_at (replicate L 0) 0 (hd (cb_contents (cbuf s))) = hd (cb_contents (cbuf s))"
    using lh by (simp add: write_at_def)
  define s1 where "s1 = s\<lparr>cbuf := cb', notified := notified s + 1\<rparr>"
  have cbk: "hackrf_tx_callback s (replicate L 0) L = Inr (0, hd (cb_contents (cbuf s)), s1)"
    using pop by (simp add: hackrf_tx_callback_def wr s1_def)
  have inv1: "sink_inv cfg s1" using Suc.prems(1) wf' r' by (simp add: sink_inv_def s1_def)
  have k1: "k \<le> cb_count (cbuf s1)" using Suc.prems(2) r' by (simp add: s1_def)
  from Suc.IH [OF inv1 k1]
  obtain s' where d: "drain s1 (BUF_LEN cfg) k = Inr (take k (cb_contents (cbuf s1)), s')"
    and inv': "sink_inv cfg s'" and c2: "cb_contents (cbuf s') = drop k (cb_contents (cbuf s1))"
    and u: "buf_used s' = buf_used s1"
    by blast
  have "drain s (BUF_LEN cfg) (Suc k) = Inr (hd (cb_contents (cbuf s)) # take k (tl (cb_contents (cbuf s))), s')"
    using cbk d by (simp add: L_def [symmetric] s1_def c')
  moreover have "hd (cb_contents (cbuf s)) # take k (tl (cb_contents (cbuf s))) =
                 take (Suc k) (cb_contents (cbuf s))"
    using ne by (cases "cb_contents (cbuf s)") simp_all
  moreover have "cb_contents (cbuf s') = drop (Suc k) (cb_contents (cbuf s))"
    using c2 by (simp add: s1_def c' drop_Suc)
  ultimately show ?case using inv' u by (auto simp: s1_def)
qed


lemma work_result:
  assumes "cfg_ok cfg" "sink_inv cfg s" "work cfg s n input = Inr (c, s1)"
  shows "sink_inv cfg s1 \<and>
         (if buf_used s + 2 * c = BUF_LEN cfg
          then buf_used s1 = 0 \<and> cb_contents (cbuf s1) = cb_contents (cbuf s) @ [buf s1]
          else buf_used s1 = buf_used s + 2 * c \<and> cbuf s1 = cbuf s)"
proof -
  have full: "buf_used s + 2 * ((BUF_LEN cfg - buf_used s) div 2) = BUF_LEN cfg"
    using assms(1,2) by (rule staging_full)
  have room: "cb_count (cbuf s) \<noteq> cb_capacity (cbuf s)" and wb: "work_body cfg s n input = Inr (c, s1)"
    using assms(3) by (auto simp: work_def wait_for_room_def cb_has_room_def split: if_splits)
  show ?thesis
  proof (cases "(BUF_LEN cfg - buf_used s) div 2 \<le> n")
    case True
    then show ?thesis
      using work_body_result [OF assms(1,2) wb] room full by simp
  next
    case False
    then have "buf_used s + 2 * n < BUF_LEN cfg" using full by simp
    then show ?thesis
      using work_body_result [OF assms(1,2) wb] False by simp
  qed
qed

lemma scaled_examples:
  "scaled_byte (Finite 1 (- 1)) = 63" "scaled_byte (Finite 1 0) = 127"
  "scaled_byte (Finite 0 0) = 0" "scaled_byte (Finite (- 1) 0) = - 127"
proof -
  have f: "f32_mul (Finite 1 (- 1)) f127 = Finite 127 (- 1)" "f32_mul (Finite 1 0) f127 = Finite 127 0"
    "f32_mul (Finite 0 0) f127 = Finite 0 0" "f32_mul (Finite (- 1) 0) f127 = Finite (- 127) 0"
    by (simp_all add: f127_def f32_round_def compute_bitlen)
  have "scaled_byte (Finite 1 (- 1)) = word_of_int (f32_trunc 127 (- 1))"
       "scaled_byte (Finite 1 0) = word_of_int (f32_trunc 127 0)"
       "scaled_byte (Finite 0 0) = word_of_int (f32_trunc 0 0)"
       "scaled_byte (Finite (- 1) 0) = word_of_int (f32_trunc (- 127) 0)"
    by (simp_all only: scaled_byte_def f f32_val_def f32.case trunc_eq [symmetric])
  then show "scaled_byte (Finite 1 (- 1)) = 63" "scaled_byte (Finite 1 0) = 127"
    "scaled_byte (Finite 0 0) = 0" "scaled_byte (Finite (- 1) 0) = - 127"
    by (simp_all add: f32_trunc_def)
qed

subsection \<open>Calls that add up to whole buffers\<close>

text \<open>
  C7. Take a well-formed sink with an empty staging buffer and a sequence of calls of
  \<^verbatim>\<open>work\<close> on valid inputs. If the ring has a free slot for every call, the sequence
  returns. Whenever it returns and the samples it consumed make up exactly \<open>k\<close> buffers,
  the staging buffer is empty again, the ring holds \<open>k\<close> more buffers than before, and
  these are, after what was queued and in order, the converted bytes of the consumed
  samples cut into buffers of \<^verbatim>\<open>BUF_LEN\<close> bytes; the callback, called once per queued
  buffer, hands them out in that same order and leaves the ring empty.
\<close>

theorem work_calls_fill_ring_in_order:
  assumes "cfg_ok cfg" and "sink_inv cfg s" and "buf_used s = 0"
      and "\<forall>(n, input) \<in> set calls. n \<le> length input \<and> (\<forall>x \<in> set input. nominal_sample x)"
  shows "(cb_count (cbuf s) + length calls \<le> cb_capacity (cbuf s) \<longrightarrow>
            (\<exists>cs0 s0. work_seq cfg s calls = Inr (cs0, s0))) \<and>
         (work_seq cfg s calls = Inr (cs, s') \<and> 2 * sum_list cs = k * BUF_LEN cfg \<longrightarrow>
            buf_used s' = 0 \<and> cb_count (cbuf s') = cb_count (cbuf s) + k \<and>
            length (chunks (BUF_LEN cfg) (converted_calls cfg calls cs)) = k \<and>
            (\<forall>b \<in> set (chunks (BUF_LEN cfg) (converted_calls cfg calls cs)). length b = BUF_LEN cfg) \<and>
            concat (chunks (BUF_LEN cfg) (converted_calls cfg calls cs)) = converted_calls cfg calls cs \<and>
            cb_contents (cbuf s') =
              cb_contents (cbuf s) @ chunks (BUF_LEN cfg) (converted_calls cfg calls cs) \<and>
            (\<exists>sd. drain s' (BUF_LEN cfg) (cb_count (cbuf s')) =
                     Inr (cb_contents (cbuf s) @ chunks (BUF_LEN cfg) (converted_calls cfg calls cs), sd) \<and>
                   cb_contents (cbuf sd) = []))"
proof (intro conjI impI)
  assume "cb_count (cbuf s) + length calls \<le> cb_capacity (cbuf s)"
  with assms(1,2,4) show "\<exists>cs0 s0. work_seq cfg s calls = Inr (cs0, s0)"
    by (rule work_seq_returns)
next
  define L where "L = BUF_LEN cfg"
  define stream where "stream = converted_calls cfg calls cs"
  assume "work_seq cfg s calls = Inr (cs, s') \<and> 2 * sum_list cs = k * BUF_LEN cfg"
  then have run: "work_seq cfg s calls = Inr (cs, s')" and tot: "2 * sum_list cs = k * L"
    by (simp_all add: L_def)
  from work_seq_stream [OF assms(1,2,4) run]
  obtain new where inv': "sink_inv cfg s'" and len: "length stream = 2 * sum_list cs"
    and n: "cb_contents (cbuf s') = cb_contents (cbuf s) @ new"
    and st: "concat new @ take (buf_used s') (buf s') = stream"
    using assms(3) by (auto simp: stream_def)
  have i': "length (buf s') = L" "buf_used s' < L" "cb_wf (cbuf s')" "cb_sz (cbuf s') = L"
    using inv' by (simp_all add: sink_inv_def L_def)
  have L: "0 < L" using assms(1) by (simp add: cfg_ok_def L_def)
  have blocks: "\<forall>b \<in> set new. length b = L"
    using length_cb_slots [OF i'(3)] i'(4) n by auto
  have "length (concat new) + buf_used s' = k * L"
    using arg_cong [OF st, of length] i'(1,2) len tot by simp
  then have eq: "length new * L + buf_used s' = k * L"
    using length_concat_blocks [OF blocks] by simp
  have "(length new * L + buf_used s') div L = length new" using i'(2) by simp
  moreover have "(k * L) div L = k" using L by simp
  ultimately have lk: "length new = k" using eq by simp
  then have u0: "buf_used s' = 0" using eq by simp
  then have cn: "concat new = stream" using st by simp
  have ch: "chunks L stream = new" unfolding cn [symmetric] using L blocks by (rule chunks_concat)
  have cnt: "cb_count (cbuf s') = cb_count (cbuf s) + k"
    using n lk length_cb_contents [of "cbuf s'"] length_cb_contents [of "cbuf s"] by simp
  from drain_ok [OF inv', of "cb_count (cbuf s')"]
  obtain sd where "drain s' L (cb_count (cbuf s')) = Inr (take (cb_count (cbuf s')) (cb_contents (cbuf s')), sd)"
    and "cb_contents (cbuf sd) = drop (cb_count (cbuf s')) (cb_contents (cbuf s'))"
    by (auto simp: L_def)
  then have dr: "drain s' L (cb_count (cbuf s')) = Inr (cb_contents (cbuf s) @ new, sd) \<and>
                 cb_contents (cbuf sd) = []"
    using length_cb_contents [of "cbuf s'"] n by simp
  show "buf_used s' = 0" by (rule u0)
  show "cb_count (cbuf s') = cb_count (cbuf s) + k" by (rule cnt)
  show "length (chunks (BUF_LEN cfg) (converted_calls cfg calls cs)) = k"
    using ch lk by (simp add: L_def stream_def)
  show "\<forall>b \<in> set (chunks (BUF_LEN cfg) (converted_calls cfg calls cs)). length b = BUF_LEN cfg"
    using ch blocks by (simp add: L_def stream_def)
  show "concat (chunks (BUF_LEN cfg) (converted_calls cfg calls cs)) = converted_calls cfg calls cs"
    using ch cn by (simp add: L_def stream_def)
  show "cb_contents (cbuf s') =
          cb_contents (cbuf s) @ chunks (BUF_LEN cfg) (converted_calls cfg calls cs)"
    using ch n by (simp add: L_def stream_def)
  show "\<exists>sd. drain s' (BUF_LEN cfg) (cb_count (cbuf s')) =
                     Inr (cb_contents (cbuf s) @ chunks (BUF_LEN cfg) (converted_calls cfg calls cs), sd) \<and>
                   cb_contents (cbuf sd) = []"
    using dr ch by (auto simp: L_def stream_def)
qed


theorem work_calls_fill_ring_in_order_witness:
  "cfg_ok ex_cfg \<and> sink_inv ex_cfg ex_sink \<and> buf_used ex_sink = 0 \<and>
   (\<exists>s'. work_seq ex_cfg ex_sink
           [(1, [(Finite 1 (- 1), Finite 1 0)]),
            (3, [(Finite 0 0, Finite (- 1) 0), (Finite 0 0, Finite 0 0), (Finite 0 0, Finite 0 0)])]
         = Inr ([1, 1], s') \<and>
         buf_used s' = 0 \<and> cb_count (cbuf s') = 1 \<and>
         cb_contents (cbuf s') = [[63, 127, 0, - 127]] \<and>
         (\<exists>sd. drain s' 4 1 = Inr ([[63, 127, 0, - 127]], sd) \<and> cb_contents (cbuf sd) = []))"
proof -
  define calls where "calls =
           [(1::nat, [(Finite 1 (- 1), Finite 1 0)]),
            (3, [(Finite 0 0, Finite (- 1) 0), (Finite 0 0, Finite 0 0), (Finite 0 0, Finite 0 0)])]"
  have e: "cb_contents (cbuf ex_sink) = []" "BUF_LEN ex_cfg = 4" "cb_count (cbuf ex_sink) = 0"
    "cb_capacity (cbuf ex_sink) = 2" "build ex_cfg = NO_SIMD"
    by (simp_all add: cb_contents_def ex_sink_simps ex_cfg_def)
  have valid: "\<forall>(n, input) \<in> set calls. n \<le> length input \<and> (\<forall>x \<in> set input. nominal_sample x)"
    by (simp add: calls_def nominal_sample_def nominal_examples)
  have "cb_count (cbuf ex_sink) + length calls \<le> cb_capacity (cbuf ex_sink)"
    by (simp add: e calls_def)
  then obtain cs s' where run: "work_seq ex_cfg ex_sink calls = Inr (cs, s')"
    using work_calls_fill_ring_in_order [OF ex_ok(1,2) ex_sink_simps(2) valid, THEN conjunct1]
    by blast
  obtain c1 s1 c2 where w1: "work ex_cfg ex_sink 1 [(Finite 1 (- 1), Finite 1 0)] = Inr (c1, s1)"
    and w2: "work ex_cfg s1 3 [(Finite 0 0, Finite (- 1) 0), (Finite 0 0, Finite 0 0), (Finite 0 0, Finite 0 0)]
               = Inr (c2, s')"
    and cs: "cs = [c1, c2]"
    using run by (auto simp: calls_def split: sum.splits)
  have c1: "c1 = 1"
    using w1 work_returns [OF ex_ok, of 1 "[(Finite 1 (- 1), Finite 1 0)]"]
    by (simp add: nominal_sample_def nominal_examples ex_sink_simps(2) e)
  have s1: "sink_inv ex_cfg s1" "buf_used s1 = 2" "cbuf s1 = cbuf ex_sink"
    using work_result [OF ex_ok(1,2) w1] by (simp_all add: c1 e ex_sink_simps(2))
  have "cb_has_room (cbuf s1)" using ex_ok(3) by (simp add: s1)
  from work_returns [OF ex_ok(1) s1(1) this, of 3
      "[(Finite 0 0, Finite (- 1) 0), (Finite 0 0, Finite 0 0), (Finite 0 0, Finite 0 0)]"]
  have c2: "c2 = 1"
    using w2 by (simp add: nominal_sample_def nominal_examples s1 e)
  have tot: "2 * sum_list cs = 1 * BUF_LEN ex_cfg" by (simp add: cs c1 c2 e)
  have stream: "converted_calls ex_cfg calls cs = [63, 127, 0, - 127]"
    by (simp add: converted_calls_def calls_def cs c1 c2 converted_def e interleaved_def
        scaled_examples)
  have ch: "chunks 4 [63, 127, 0, - 127] = [[63, 127, 0, - 127]]"
    by (simp add: chunks.simps)
  from work_calls_fill_ring_in_order [OF ex_ok(1,2) ex_sink_simps(2) valid, THEN conjunct2, of cs s' 1]
    run tot
  have R: "buf_used s' = 0" "cb_count (cbuf s') = cb_count (cbuf ex_sink) + 1"
    "cb_contents (cbuf s') =
       cb_contents (cbuf ex_sink) @ chunks (BUF_LEN ex_cfg) (converted_calls ex_cfg calls cs)"
    "\<exists>sd. drain s' (BUF_LEN ex_cfg) (cb_count (cbuf s')) =
            Inr (cb_contents (cbuf ex_sink) @ chunks (BUF_LEN ex_cfg) (converted_calls ex_cfg calls cs), sd) \<and>
          cb_contents (cbuf sd) = []"
    by blast+
  have cnt: "cb_count (cbuf s') = 1" using R(2) by (simp add: e)
  have con: "cb_contents (cbuf s') = [[63, 127, 0, - 127]]"
    using R(3) by (simp only: e stream ch append_Nil)
  have dr: "\<exists>sd. drain s' 4 1 = Inr ([[63, 127, 0, - 127]], sd) \<and> cb_contents (cbuf sd) = []"
    using R(4) by (simp only: cnt e stream ch append_Nil)
  have W: "work_seq ex_cfg ex_sink
           [(1, [(Finite 1 (- 1), Finite 1 0)]),
            (3, [(Finite 0 0, Finite (- 1) 0), (Finite 0 0, Finite 0 0), (Finite 0 0, Finite 0 0)])]
         = Inr ([1, 1], s')"
    using run by (simp only: calls_def cs c1 c2)
  from W R(1) cnt con dr ex_ok(1,2) ex_sink_simps(2) show ?thesis by blast
qed

lemma new_sink_inv:
  assumes "cfg_ok cfg" "length mem_buf = BUF_LEN cfg" "length mem_ring = n * BUF_LEN cfg" "0 < n"
      and "s = new_hackrf_sink_c cfg (Some n) d mem_buf (Some mem_ring) 0"
  shows "sink_inv cfg s" "buf_used s = 0" "cb_count (cbuf s) = 0" "cb_capacity (cbuf s) = n"
    "cb_contents (cbuf s) = []"
  using assms
  by (simp_all add: sink_inv_def cfg_ok_def new_hackrf_sink_c_def cb_init_def cb_wf_def Let_def
      cb_contents_def)

lemma work_fills:
  assumes "cfg_ok cfg" "sink_inv cfg s" "buf_used s = 0" "cb_count (cbuf s) < cb_capacity (cbuf s)"
      and "n \<le> length input" "\<forall>x \<in> set input. nominal_sample x" "BUF_LEN cfg div 2 \<le> n"
  shows "\<exists>s1. work cfg s n input = Inr (BUF_LEN cfg div 2, s1) \<and> sink_inv cfg s1 \<and>
              buf_used s1 = 0 \<and>
              cb_contents (cbuf s1) = cb_contents (cbuf s) @ [converted cfg (take (BUF_LEN cfg div 2) input)] \<and>
              cb_count (cbuf s1) = cb_count (cbuf s) + 1 \<and>
              cb_capacity (cbuf s1) = cb_capacity (cbuf s)"
proof -
  have r: "(BUF_LEN cfg - buf_used s) div 2 \<le> n" using assms(3,7) by simp
  from work_body_push [OF assms(1,2,5,6) r assms(4)]
  obtain cb' where w: "work_body cfg s n input =
       Inr (BUF_LEN cfg div 2,
            s\<lparr>buf := converted cfg (take (BUF_LEN cfg div 2) input), buf_used := 0, cbuf := cb'\<rparr>)"
    and c: "cb_contents cb' = cb_contents (cbuf s) @ [converted cfg (take (BUF_LEN cfg div 2) input)]"
    and k: "cb_count cb' = cb_count (cbuf s) + 1" "cb_capacity cb' = cb_capacity (cbuf s)"
    by (auto simp: assms(3))
  have "cb_has_room (cbuf s)" using assms(4) by (simp add: cb_has_room_def)
  then have ww: "work cfg s n input =
       Inr (BUF_LEN cfg div 2,
            s\<lparr>buf := converted cfg (take (BUF_LEN cfg div 2) input), buf_used := 0, cbuf := cb'\<rparr>)"
    using w by (simp add: work_def wait_for_room_def)
  have "sink_inv cfg (s\<lparr>buf := converted cfg (take (BUF_LEN cfg div 2) input), buf_used := 0, cbuf := cb'\<rparr>)"
    using work_result [OF assms(1,2) ww] by simp
  then show ?thesis using ww c k by auto
qed

lemma scenario_calls:
  assumes "cfg_ok cfg" "BUF_LEN cfg = 1024" "sink_inv cfg s" "buf_used s = 0"
      and "cb_count (cbuf s) = 0" "cb_capacity (cbuf s) = 4" "cb_contents (cbuf s) = []"
      and "length xs = 2048" "\<forall>x \<in> set xs. nominal_sample x"
  shows "(\<exists>s1. work cfg s 2048 xs = Inr (512, s1) \<and> buf_used s1 = 0 \<and> cb_count (cbuf s1) = 1 \<and>
               cb_contents (cbuf s1) = [converted cfg (take 512 xs)]) \<and>
         (\<exists>s4. work_seq cfg s [(2048, xs), (1536, drop 512 xs), (1024, drop 1024 xs),
                                (512, drop 1536 xs)] = Inr ([512, 512, 512, 512], s4) \<and>
               buf_used s4 = 0 \<and> cb_count (cbuf s4) = 4 \<and>
               cb_contents (cbuf s4) =
                 [converted cfg (take 512 xs), converted cfg (take 512 (drop 512 xs)),
                  converted cfg (take 512 (drop 1024 xs)), converted cfg (take 512 (drop 1536 xs))])"
proof -
  have h: "BUF_LEN cfg div 2 = 512" by (simp add: assms(2))
  have nom: "\<forall>x \<in> set (drop k xs). nominal_sample x" for k
    using assms(9) by (auto dest: in_set_dropD)
  obtain s1 where w1: "work cfg s 2048 xs = Inr (512, s1)" and i1: "sink_inv cfg s1" "buf_used s1 = 0"
    and c1: "cb_contents (cbuf s1) = [converted cfg (take 512 xs)]"
    and k1: "cb_count (cbuf s1) = 1" "cb_capacity (cbuf s1) = 4"
    using work_fills [OF assms(1,3,4), of 2048 xs] assms(5-9) by (auto simp: h)
  obtain s2 where w2: "work cfg s1 1536 (drop 512 xs) = Inr (512, s2)" and i2: "sink_inv cfg s2" "buf_used s2 = 0"
    and c2: "cb_contents (cbuf s2) = [converted cfg (take 512 xs), converted cfg (take 512 (drop 512 xs))]"
    and k2: "cb_count (cbuf s2) = 2" "cb_capacity (cbuf s2) = 4"
    using work_fills [OF assms(1) i1, of 1536 "drop 512 xs"] k1 c1 assms(8) nom by (auto simp: h)
  obtain s3 where w3: "work cfg s2 1024 (drop 1024 xs) = Inr (512, s3)" and i3: "sink_inv cfg s3" "buf_used s3 = 0"
    and c3: "cb_contents (cbuf s3) = [converted cfg (take 512 xs), converted cfg (take 512 (drop 512 xs)),
                  converted cfg (take 512 (drop 1024 xs))]"
    and k3: "cb_count (cbuf s3) = 3" "cb_capacity (cbuf s3) = 4"
    using work_fills [OF assms(1) i2, of 1024 "drop 1024 xs"] k2 c2 assms(8) nom by (auto simp: h)
  obtain s4 where w4: "work cfg s3 512 (drop 1536 xs) = Inr (512, s4)" and i4: "sink_inv cfg s4" "buf_used s4 = 0"
    and c4: "cb_contents (cbuf s4) = [converted cfg (take 512 xs), converted cfg (take 512 (drop 512 xs)),
                  converted cfg (take 512 (drop 1024 xs)), converted cfg (take 512 (drop 1536 xs))]"
    and k4: "cb_count (cbuf s4) = 4"
    using work_fills [OF assms(1) i3, of 512 "drop 1536 xs"] k3 c3 assms(8) nom by (auto simp: h)
  have "work_seq cfg s [(2048, xs), (1536, drop 512 xs), (1024, drop 1024 xs), (512, drop 1536 xs)]
        = Inr ([512, 512, 512, 512], s4)"
    by (simp add: w1 w2 w3 w4)
  then show ?thesis using w1 i1(2) k1(1) c1 i4(2) k4 c4 by blast
qed

lemma ex1024:
  "cfg_ok ex_cfg1024" "BUF_LEN ex_cfg1024 = 1024" "sink_inv ex_cfg1024 ex_sink1024"
  "buf_used ex_sink1024 = 0" "cb_count (cbuf ex_sink1024) = 0" "cb_capacity (cbuf ex_sink1024) = 4"
  "cb_contents (cbuf ex_sink1024) = []" "length ex_input2048 = 2048"
  "\<forall>x \<in> set ex_input2048. nominal_sample x"
proof -
  show c: "cfg_ok ex_cfg1024" and b: "BUF_LEN ex_cfg1024 = 1024"
    by (simp_all add: cfg_ok_def ex_cfg1024_def)
  have l: "length (replicate 1024 (0::int8_t)) = BUF_LEN ex_cfg1024"
    "length (replicate 4096 (0::int8_t)) = 4 * BUF_LEN ex_cfg1024" "(0::nat) < 4"
    by (simp_all add: b)
  show "sink_inv ex_cfg1024 ex_sink1024" "buf_used ex_sink1024 = 0" "cb_count (cbuf ex_sink1024) = 0"
    "cb_capacity (cbuf ex_sink1024) = 4" "cb_contents (cbuf ex_sink1024) = []"
    using new_sink_inv [OF c l ex_sink1024_def] by simp_all
  show "length ex_input2048 = 2048" "\<forall>x \<in> set ex_input2048. nominal_sample x"
    by (simp_all add: ex_input2048_def nominal_sample_def nominal_examples)
qed

subsection \<open>The scenario with buffers of 1024 bytes\<close>

text \<open>
  One call of \<^verbatim>\<open>work\<close> fills the staging buffer at most once. On the sink constructed
  with \<^verbatim>\<open>buffers=4\<close> and buffers of 1024 bytes, the call offered 2048 zero samples
  consumes 512 of them and leaves one buffer in the ring, not four.
\<close>

theorem one_call_pushes_one_buffer:
  "(case work ex_cfg1024 ex_sink1024 2048 ex_input2048 of
      Inl f \<Rightarrow> False
    | Inr (consumed, s') \<Rightarrow>
        consumed = 512 \<and> buf_used s' = 0 \<and> cb_count (cbuf s') = 1 \<and> cb_count (cbuf s') \<noteq> 4)"
proof -
  obtain s1 where "work ex_cfg1024 ex_sink1024 2048 ex_input2048 = Inr (512, s1)"
    "buf_used s1 = 0" "cb_count (cbuf s1) = 1"
    using scenario_calls [OF ex1024] by blast
  then show ?thesis by simp
qed

text \<open>
  C9. The claim is that one call of \<^verbatim>\<open>work\<close> offered 2048 samples, on a sink constructed
  with \<^verbatim>\<open>buffers=4\<close> and buffers of 1024 bytes, pushes four buffers, leaves nothing
  pending and consumes 512 samples. What holds is the following. The call consumes 512
  samples, pushes exactly one full buffer and leaves nothing pending; and the four calls
  by which the runtime offers the 2048 samples (the whole input, then what is left after
  each call) consume 512 samples each and leave exactly four full buffers in the ring, the
  converted input in order, with nothing pending.
\<close>

theorem scenario_1024:
  assumes "BUF_LEN cfg = 1024"
      and "length mem_buf = 1024" and "length mem_ring = 4096"
      and "s = new_hackrf_sink_c cfg (Some 4) d mem_buf (Some mem_ring) 0"
      and "length xs = 2048" and "\<forall>x \<in> set xs. nominal_sample x"
  shows "(\<exists>s1. work cfg s 2048 xs = Inr (512, s1) \<and> buf_used s1 = 0 \<and> cb_count (cbuf s1) = 1 \<and>
               cb_contents (cbuf s1) = [converted cfg (take 512 xs)]) \<and>
         (\<exists>s4. work_seq cfg s [(2048, xs), (1536, drop 512 xs), (1024, drop 1024 xs),
                                (512, drop 1536 xs)] = Inr ([512, 512, 512, 512], s4) \<and>
               buf_used s4 = 0 \<and> cb_count (cbuf s4) = 4 \<and>
               cb_contents (cbuf s4) =
                 [converted cfg (take 512 xs), converted cfg (take 512 (drop 512 xs)),
                  converted cfg (take 512 (drop 1024 xs)), converted cfg (take 512 (drop 1536 xs))])"
proof -
  have c: "cfg_ok cfg" by (simp add: cfg_ok_def assms(1))
  have l: "length mem_buf = BUF_LEN cfg" "length mem_ring = 4 * BUF_LEN cfg" "(0::nat) < 4"
    using assms(1-3) by simp_all
  show ?thesis
    using c assms(1) new_sink_inv [OF c l assms(4)] assms(5,6) by (rule scenario_calls)
qed

theorem scenario_1024_witness:
  "cfg_ok ex_cfg1024 \<and> BUF_LEN ex_cfg1024 = 1024 \<and> length ex_input2048 = 2048 \<and>
   (\<exists>s1. work ex_cfg1024 ex_sink1024 2048 ex_input2048 = Inr (512, s1) \<and> buf_used s1 = 0 \<and>
         cb_count (cbuf s1) = 1) \<and>
   (\<exists>s4. work_seq ex_cfg1024 ex_sink1024
           [(2048, ex_input2048), (1536, drop 512 ex_input2048), (1024, drop 1024 ex_input2048),
            (512, drop 1536 ex_input2048)] = Inr ([512, 512, 512, 512], s4) \<and>
         buf_used s4 = 0 \<and> cb_count (cbuf s4) = 4)"
proof -
  have l: "length (replicate 1024 (0::int8_t)) = 1024" "length (replicate 4096 (0::int8_t)) = 4096"
    by simp_all
  from scenario_1024 [OF ex1024(2) l ex_sink1024_def ex1024(8,9)] ex1024(1,2,8)
  show ?thesis by blast
qed

end
